theory Spec2Isabelle
  imports Main "HOL-Library.Word"
begin

section \<open>ParcelFinder: parcels of plots on a grid and their perimeters\<close>

text \<open>
  The development embeds \<^verbatim>\<open>src/ParcelFinder.js\<close> (the exported \<^verbatim>\<open>render\<close> with its helpers
  \<^verbatim>\<open>parsePoints\<close>, \<^verbatim>\<open>createEmptyGrid\<close>, \<^verbatim>\<open>findParcels\<close> and \<^verbatim>\<open>traceParcel\<close>) and the
  TypeScript port \<^verbatim>\<open>src/ParcelFinder.ts\<close> (\<^verbatim>\<open>computeParcelPerimeters\<close>).

  Conventions of the embedding:
  \<^item> a JavaScript string is its sequence of UTF-16 code units;
  \<^item> a thrown exception is a value \<open>Inl e\<close> of the sum type \<open>error + 'a\<close>;
  \<^item> the grid, which the source mutates in place, is passed in and returned;
  \<^item> coordinates are integers, since the tracer forms \<open>x - 1\<close> at \<open>x = 0\<close>;
  \<^item> every array access of the source goes through \<open>gridGet\<close> or \<open>gridSet\<close>, which
    report an access outside the allocated rows and columns as the value
    \<open>Inl IndexFault\<close> instead of reproducing what JavaScript does there (a read of a
    missing row throws, a read of a missing column yields \<^verbatim>\<open>undefined\<close>, a write of a
    missing column extends the row). The safety theorem below shows that no run
    started by \<^verbatim>\<open>render\<close> ever produces that value, so on those runs the model and
    JavaScript agree.
\<close>

subsection \<open>Values, errors and constants\<close>

type_synonym code_unit = "16 word"

type_synonym jsstring = "code_unit list"

text \<open>The JavaScript values that \<^verbatim>\<open>render\<close> distinguishes by its dynamic checks.\<close>

datatype jsvalue =
  JUndefined
  | JNumber int
  | JString jsstring
  | JArray "jsvalue list"

datatype error =
  TypeError string
  | RangeError string
  | IndexFault

definition js :: "string \<Rightarrow> jsstring" where
  "js s = map (\<lambda>c. of_nat (of_char c)) s"

definition TYPE_ERROR_MSG :: string where
  "TYPE_ERROR_MSG =
     ''Point coordinates must be an array of strings in the form '' @ [CHR 0x22] @ ''x,y'' @ [CHR 0x22]"

definition RANGE_ERROR_MSG :: string where
  "RANGE_ERROR_MSG = ''Point coordinates values must be in the range 0 to 99''"

definition MAX_VALUE :: int where
  "MAX_VALUE = 99"

subsection \<open>The coordinate pattern\<close>

text \<open>
  \<^verbatim>\<open>/^(\d+)\s*,\s*(\d+)$/\<close> without flags: \<^verbatim>\<open>\d\<close> is \<^verbatim>\<open>[0-9]\<close>, \<^verbatim>\<open>\s\<close> is the white space
  and line terminator code units of ECMAScript, \<^verbatim>\<open>^\<close> and \<^verbatim>\<open>$\<close> are the two ends of the
  string. The greedy match is deterministic here, because neither a white space nor the
  comma is a digit: each starred or plussed class takes the longest run.
\<close>

definition isDigit :: "code_unit \<Rightarrow> bool" where
  "isDigit c \<longleftrightarrow> 0x30 \<le> c \<and> c \<le> 0x39"

definition isSpace :: "code_unit \<Rightarrow> bool" where
  "isSpace c \<longleftrightarrow>
     (0x09 \<le> c \<and> c \<le> 0x0D) \<or> c = 0x20 \<or> c = 0xA0 \<or> c = 0x1680 \<or>
     (0x2000 \<le> c \<and> c \<le> 0x200A) \<or> c = 0x2028 \<or> c = 0x2029 \<or> c = 0x202F \<or>
     c = 0x205F \<or> c = 0x3000 \<or> c = 0xFEFF"

definition comma :: code_unit where
  "comma = 0x2C"

definition matchPoint :: "jsstring \<Rightarrow> (jsstring \<times> jsstring) option" where
  "matchPoint s =
     (let d1 = takeWhile isDigit s;
          r1 = dropWhile isSpace (dropWhile isDigit s)
      in if d1 = [] then None
         else (case r1 of
                 [] \<Rightarrow> None
               | c # r2 \<Rightarrow>
                   if c \<noteq> comma then None
                   else (let d2 = dropWhile isSpace r2
                         in if d2 \<noteq> [] \<and> list_all isDigit d2 then Some (d1, d2) else None)))"

text \<open>
  \<^verbatim>\<open>parseInt(digits, 10)\<close> on a string of decimal digits. JavaScript returns a double,
  which is the exact integer up to \<open>2^53\<close> and beyond that a rounded value that is still
  larger than 99, so the comparison with \<open>MAX_VALUE\<close> and every value that passes it are
  the same on the exact integer.
\<close>

definition digitValue :: "code_unit \<Rightarrow> int" where
  "digitValue c = int (unat c) - 48"

definition parseInt10 :: "jsstring \<Rightarrow> int" where
  "parseInt10 ds = foldl (\<lambda>n c. 10 * n + digitValue c) 0 ds"

subsection \<open>The grid\<close>

type_synonym grid = "nat list list"

definition inGrid :: "grid \<Rightarrow> int \<Rightarrow> int \<Rightarrow> bool" where
  "inGrid g x y \<longleftrightarrow> 0 \<le> x \<and> x < int (length g) \<and> 0 \<le> y \<and> y < int (length (g ! nat x))"

definition gridGet :: "grid \<Rightarrow> int \<Rightarrow> int \<Rightarrow> error + nat" where
  "gridGet g x y = (if inGrid g x y then Inr (g ! nat x ! nat y) else Inl IndexFault)"

definition gridSet :: "grid \<Rightarrow> int \<Rightarrow> int \<Rightarrow> nat \<Rightarrow> error + grid" where
  "gridSet g x y v =
     (if inGrid g x y then Inr (g[nat x := (g ! nat x)[nat y := v]]) else Inl IndexFault)"

text \<open>
  \<^verbatim>\<open>createEmptyGrid(x, y)\<close>: \<^verbatim>\<open>Array(x + 1)\<close> allocates \<open>x + 1\<close> empty slots (an empty slot
  is the row \<open>[]\<close> here) and throws for a negative length; the loop then stores a row of
  \<open>y + 1\<close> zeros in each slot.
\<close>

definition newArray :: "int \<Rightarrow> 'a \<Rightarrow> error + 'a list" where
  "newArray n v = (if n < 0 then Inl (RangeError ''Invalid array length'') else Inr (replicate (nat n) v))"

function fillRows :: "grid \<Rightarrow> int \<Rightarrow> int \<Rightarrow> int \<Rightarrow> error + grid" where
  "fillRows g i x y =
     (if i \<le> x then
        (case newArray (y + 1) 0 of
           Inl e \<Rightarrow> Inl e
         | Inr row \<Rightarrow> fillRows (g[nat i := row]) (i + 1) x y)
      else Inr g)"
  by pat_completeness auto
termination
  by (relation "measure (\<lambda>(g, i, x, y). nat (x + 1 - i))") auto

declare fillRows.simps [simp del]

definition createEmptyGrid :: "int \<Rightarrow> int \<Rightarrow> error + grid" where
  "createEmptyGrid x y =
     (case newArray (x + 1) [] of
        Inl e \<Rightarrow> Inl e
      | Inr g \<Rightarrow> fillRows g 0 x y)"

subsection \<open>parsePoints\<close>

text \<open>The body of the first \<^verbatim>\<open>forEach\<close> callback up to the range check, for one element.\<close>

definition parsePoint :: "jsvalue \<Rightarrow> error + (int \<times> int)" where
  "parsePoint point =
     (case point of
        JString s \<Rightarrow>
          (case matchPoint s of
             None \<Rightarrow> Inl (TypeError TYPE_ERROR_MSG)
           | Some (c1, c2) \<Rightarrow>
               (let x = parseInt10 c1; y = parseInt10 c2
                in if x > MAX_VALUE \<or> y > MAX_VALUE then Inl (RangeError RANGE_ERROR_MSG)
                   else Inr (x, y)))
      | _ \<Rightarrow> Inl (TypeError TYPE_ERROR_MSG))"

fun validatePoints ::
  "jsvalue list \<Rightarrow> (int \<times> int) list \<Rightarrow> int \<Rightarrow> int \<Rightarrow> error + ((int \<times> int) list \<times> int \<times> int)" where
  "validatePoints [] parsedPoints mx my = Inr (parsedPoints, mx, my)"
| "validatePoints (point # rest) parsedPoints mx my =
     (case parsePoint point of
        Inl e \<Rightarrow> Inl e
      | Inr (x, y) \<Rightarrow> validatePoints rest (parsedPoints @ [(x, y)]) (max mx x) (max my y))"

fun populate :: "(int \<times> int) list \<Rightarrow> grid \<Rightarrow> error + grid" where
  "populate [] g = Inr g"
| "populate (point # rest) g =
     (case gridSet g (fst point) (snd point) 1 of
        Inl e \<Rightarrow> Inl e
      | Inr g' \<Rightarrow> populate rest g')"

record gridData =
  grid :: grid
  maxX :: int
  maxY :: int

definition parsePoints :: "jsvalue \<Rightarrow> error + gridData" where
  "parsePoints points =
     (case points of
        JArray ps \<Rightarrow>
          (case validatePoints ps [] (- 1) (- 1) of
             Inl e \<Rightarrow> Inl e
           | Inr (parsedPoints, mx, my) \<Rightarrow>
               (case createEmptyGrid mx my of
                  Inl e \<Rightarrow> Inl e
                | Inr g0 \<Rightarrow>
                    (case populate parsedPoints g0 of
                       Inl e \<Rightarrow> Inl e
                     | Inr g \<Rightarrow> Inr \<lparr>grid = g, maxX = mx, maxY = my\<rparr>)))
      | _ \<Rightarrow> Inl (TypeError TYPE_ERROR_MSG))"

subsection \<open>traceParcel\<close>

text \<open>
  The keys of the set \<^verbatim>\<open>seen\<close>: \<^verbatim>\<open>[x, y].join(' ')\<close> renders the two numbers in decimal
  (a minus sign first for a negative one) with one space between them. The tracer only
  forms keys of integers between \<open>-1\<close> and \<open>100\<close>, far below the size at which
  JavaScript switches to exponent notation. The keys are ASCII and kept as \<open>string\<close>.
\<close>

function decimal :: "nat \<Rightarrow> string" where
  "decimal n = (if n < 10 then [char_of (48 + n)] else decimal (n div 10) @ [char_of (48 + n mod 10)])"
  by pat_completeness auto
termination
  by (relation "measure id") auto

declare decimal.simps [simp del]

definition numberToString :: "int \<Rightarrow> string" where
  "numberToString i = (if i < 0 then CHR ''-'' # decimal (nat (- i)) else decimal (nat i))"

definition joinKey :: "int \<Rightarrow> int \<Rightarrow> string" where
  "joinKey x y = numberToString x @ '' '' @ numberToString y"

text \<open>
  The state of the \<^verbatim>\<open>while\<close> loop: the grid, the set \<^verbatim>\<open>seen\<close> of keys, the stack and the
  counter. The stack is an array used with \<^verbatim>\<open>push\<close> and \<^verbatim>\<open>pop\<close>; its top is the head of
  the list.
\<close>

record trace_state =
  tgrid :: grid
  seenKeys :: "string set"
  stack :: "(int \<times> int) list"
  openEdges :: int

definition hasBeenSeen :: "trace_state \<Rightarrow> int \<Rightarrow> int \<Rightarrow> bool" where
  "hasBeenSeen st x y \<longleftrightarrow> joinKey x y \<in> seenKeys st"

definition isNewNeighbour :: "trace_state \<Rightarrow> int \<Rightarrow> int \<Rightarrow> error + bool" where
  "isNewNeighbour st x y =
     (case gridGet (tgrid st) x y of
        Inl e \<Rightarrow> Inl e
      | Inr v \<Rightarrow> Inr (v \<noteq> 0 \<and> \<not> hasBeenSeen st x y))"

text \<open>
  One of the four blocks
  \<^verbatim>\<open>if (guard && isNewNeighbour(nx, ny)) { stack.push([nx, ny]) } else if (!hasBeenSeen(nx, ny)) { openEdges++ }\<close>:
  the grid is read only when the guard holds.
\<close>

definition look :: "bool \<Rightarrow> int \<Rightarrow> int \<Rightarrow> trace_state \<Rightarrow> error + trace_state" where
  "look guard nx ny st =
     (case (if guard then isNewNeighbour st nx ny else Inr False) of
        Inl e \<Rightarrow> Inl e
      | Inr b \<Rightarrow>
          if b then Inr (st\<lparr>stack := (nx, ny) # stack st\<rparr>)
          else if \<not> hasBeenSeen st nx ny then Inr (st\<lparr>openEdges := openEdges st + 1\<rparr>)
          else Inr st)"

text \<open>One iteration of the loop body, for a non-empty stack.\<close>

definition traceStep :: "int \<Rightarrow> int \<Rightarrow> trace_state \<Rightarrow> error + trace_state" where
  "traceStep mx my st =
     (case stack st of
        [] \<Rightarrow> Inr st
      | p # rest \<Rightarrow>
          (case gridSet (tgrid st) (fst p) (snd p) 0 of
             Inl e \<Rightarrow> Inl e
           | Inr g \<Rightarrow>
               (let st0 = st\<lparr>stack := rest, tgrid := g\<rparr>
                in if hasBeenSeen st0 (fst p) (snd p) then Inr st0
                   else
                     (case look (fst p > 0) (fst p - 1) (snd p) st0 of
                        Inl e \<Rightarrow> Inl e
                      | Inr st1 \<Rightarrow>
                     (case look (fst p < mx) (fst p + 1) (snd p) st1 of
                        Inl e \<Rightarrow> Inl e
                      | Inr st2 \<Rightarrow>
                     (case look (snd p > 0) (fst p) (snd p - 1) st2 of
                        Inl e \<Rightarrow> Inl e
                      | Inr st3 \<Rightarrow>
                     (case look (snd p < my) (fst p) (snd p + 1) st3 of
                        Inl e \<Rightarrow> Inl e
                      | Inr st4 \<Rightarrow>
                          Inr (st4\<lparr>seenKeys := insert (joinKey (fst p) (snd p)) (seenKeys st4)\<rparr>))))))))"

text \<open>
  A key determines its two numbers: the decimal rendering can be read back, and it
  contains no space. So the set of keys stands for a set of cells, called \<open>seen\<close> below.
\<close>

definition decimalValue :: "string \<Rightarrow> nat" where
  "decimalValue s = foldl (\<lambda>a c. 10 * a + (of_char c - 48)) 0 s"

definition stringToNumber :: "string \<Rightarrow> int" where
  "stringToNumber s =
     (case s of
        [] \<Rightarrow> 0
      | c # r \<Rightarrow> if c = CHR ''-'' then - int (decimalValue r) else int (decimalValue s))"

lemma decimalValue_snoc: "decimalValue (s @ [c]) = 10 * decimalValue s + (of_char c - 48)"
  by (simp add: decimalValue_def)

lemma decimalValue_decimal: "decimalValue (decimal n) = n"
proof (induction n rule: decimal.induct)
  case (1 n)
  show ?case
  proof (cases "n < 10")
    case True
    then show ?thesis by (subst decimal.simps) (simp add: decimalValue_def)
  next
    case False
    have "n mod 10 < 10" by simp
    then have "of_char (char_of (48 + n mod 10) :: char) - 48 = n mod 10" by simp
    then show ?thesis
      using False 1[OF False] by (subst decimal.simps) (simp add: decimalValue_snoc)
  qed
qed

lemma decimal_chars: "c \<in> set (decimal n) \<Longrightarrow> c \<noteq> CHR '' '' \<and> c \<noteq> CHR ''-''"
proof (induction n rule: decimal.induct)
  case (1 n)
  have d: "char_of (48 + k) \<noteq> CHR '' '' \<and> char_of (48 + k) \<noteq> CHR ''-''" if "k < 10" for k :: nat
  proof -
    have v: "of_char (char_of (48 + k) :: char) = 48 + k" using that by simp
    have "char_of (48 + k) \<noteq> CHR '' ''"
    proof
      assume "char_of (48 + k) = CHR '' ''"
      then have "of_char (char_of (48 + k) :: char) = (of_char CHR '' '' :: nat)" by (rule arg_cong)
      then show False unfolding v by simp
    qed
    moreover have "char_of (48 + k) \<noteq> CHR ''-''"
    proof
      assume "char_of (48 + k) = CHR ''-''"
      then have "of_char (char_of (48 + k) :: char) = (of_char CHR ''-'' :: nat)" by (rule arg_cong)
      then show False unfolding v by simp
    qed
    ultimately show ?thesis by simp
  qed
  show ?case
  proof (cases "n < 10")
    case True
    then show ?thesis using 1(2) d[of n] by (subst (asm) decimal.simps) auto
  next
    case False
    then show ?thesis
      using 1(2) 1(1)[OF False] d[of "n mod 10"] by (subst (asm) decimal.simps) auto
  qed
qed

lemma decimal_nonempty: "decimal n \<noteq> []"
  by (subst decimal.simps) simp

lemma stringToNumber_numberToString: "stringToNumber (numberToString i) = i"
proof (cases "i < 0")
  case True
  then show ?thesis by (simp add: stringToNumber_def numberToString_def decimalValue_decimal)
next
  case False
  obtain c r where cr: "decimal (nat i) = c # r" using decimal_nonempty[of "nat i"] by (cases "decimal (nat i)") auto
  then have "c \<noteq> CHR ''-''" using decimal_chars[of c "nat i"] by simp
  then show ?thesis
    using False cr decimalValue_decimal[of "nat i"] by (simp add: stringToNumber_def numberToString_def)
qed

lemma numberToString_no_space: "CHR '' '' \<notin> set (numberToString i)"
  using decimal_chars by (auto simp: numberToString_def)

lemma joinKey_inj: "joinKey x y = joinKey x' y' \<longleftrightarrow> x = x' \<and> y = y'"
proof
  assume eq: "joinKey x y = joinKey x' y'"
  have t: "takeWhile (\<lambda>c. c \<noteq> CHR '' '') (joinKey a b) = numberToString a" for a b
    unfolding joinKey_def using numberToString_no_space[of a]
    by (subst takeWhile_append2) auto
  have d: "dropWhile (\<lambda>c. c \<noteq> CHR '' '') (joinKey a b) = CHR '' '' # numberToString b" for a b
    unfolding joinKey_def using numberToString_no_space[of a]
    by (subst dropWhile_append2) auto
  from eq t[of x y] t[of x' y'] have "numberToString x = numberToString x'" by simp
  moreover from eq d[of x y] d[of x' y'] have "numberToString y = numberToString y'" by simp
  ultimately have "stringToNumber (numberToString x) = stringToNumber (numberToString x')"
    and "stringToNumber (numberToString y) = stringToNumber (numberToString y')" by simp_all
  then show "x = x' \<and> y = y'"
    by (simp only: stringToNumber_numberToString)
qed simp

definition cellsOfKeys :: "string set \<Rightarrow> (int \<times> int) set" where
  "cellsOfKeys K = {p. joinKey (fst p) (snd p) \<in> K}"

definition seen :: "trace_state \<Rightarrow> (int \<times> int) set" where
  "seen st = cellsOfKeys (seenKeys st)"

lemma hasBeenSeen_iff: "hasBeenSeen st x y \<longleftrightarrow> (x, y) \<in> seen st"
  by (simp add: hasBeenSeen_def seen_def cellsOfKeys_def)

lemma seen_update [simp]:
  "seen (st\<lparr>stack := s\<rparr>) = seen st"
  "seen (st\<lparr>tgrid := g\<rparr>) = seen st"
  "seen (st\<lparr>openEdges := n\<rparr>) = seen st"
  by (simp_all add: seen_def)

lemma seen_insert [simp]:
  "seen (st\<lparr>seenKeys := insert (joinKey a b) (seenKeys st')\<rparr>) = insert (a, b) (seen st')"
  by (auto simp: seen_def cellsOfKeys_def joinKey_inj)

lemma seen_init [simp]: "seen \<lparr>tgrid = g, seenKeys = {}, stack = s, openEdges = n\<rparr> = {}"
  by (simp add: seen_def cellsOfKeys_def)

text \<open>
  Termination of the loop. A cell is occupied when it lies in the grid and holds a
  non-zero value. Popping an occupied cell clears it and pushes at most four cells;
  popping a cell that is already seen only shortens the stack; popping a cell that is
  neither occupied nor seen (which no run started by \<^verbatim>\<open>findParcels\<close> does) makes it seen,
  and nothing that is pushed is ever of that kind. So the number of stack entries that are
  neither seen nor occupied, followed by five times the number of occupied cells plus the
  stack length, decreases lexicographically.
\<close>

definition cellOcc :: "grid \<Rightarrow> int \<times> int \<Rightarrow> bool" where
  "cellOcc g p \<longleftrightarrow> inGrid g (fst p) (snd p) \<and> g ! nat (fst p) ! nat (snd p) \<noteq> 0"

definition occ :: "grid \<Rightarrow> (int \<times> int) set" where
  "occ g = {p. cellOcc g p}"

definition stale :: "(int \<times> int) set \<Rightarrow> grid \<Rightarrow> (int \<times> int) list \<Rightarrow> nat" where
  "stale S g stk = length (filter (\<lambda>q. q \<notin> S \<and> \<not> cellOcc g q) stk)"

definition staleCount :: "trace_state \<Rightarrow> nat" where
  "staleCount st = stale (seen st) (tgrid st) (stack st)"

definition workLeft :: "trace_state \<Rightarrow> nat" where
  "workLeft st = 5 * card (occ (tgrid st)) + length (stack st)"

lemma finite_occ: "finite (occ g)"
proof -
  have "occ g \<subseteq> (\<Union>i<length g. (\<lambda>j. (int i, int j)) ` {..<length (g ! i)})"
  proof
    fix p assume "p \<in> occ g"
    then have ig: "inGrid g (fst p) (snd p)" by (simp add: occ_def cellOcc_def)
    then have "nat (fst p) < length g" "nat (snd p) < length (g ! nat (fst p))"
      "p = (int (nat (fst p)), int (nat (snd p)))"
      by (auto simp: inGrid_def)
    then show "p \<in> (\<Union>i<length g. (\<lambda>j. (int i, int j)) ` {..<length (g ! i)})"
      by blast
  qed
  then show ?thesis by (rule finite_subset) simp
qed

lemma gridSet_Inr: "gridSet g x y v = Inr g' \<longleftrightarrow> inGrid g x y \<and> g' = g[nat x := (g ! nat x)[nat y := v]]"
  by (auto simp: gridSet_def)

lemma gridSet_Inl: "gridSet g x y v = Inl e \<longleftrightarrow> \<not> inGrid g x y \<and> e = IndexFault"
  by (auto simp: gridSet_def)

lemma inGrid_gridSet: "gridSet g x y v = Inr g' \<Longrightarrow> inGrid g' a b = inGrid g a b"
  by (auto simp: gridSet_Inr inGrid_def nth_list_update split: if_splits)

lemma cellOcc_gridSet:
  "gridSet g x y v = Inr g' \<Longrightarrow> cellOcc g' q \<longleftrightarrow> (if q = (x, y) then v \<noteq> 0 else cellOcc g q)"
  by (cases q) (auto simp: gridSet_Inr inGrid_def cellOcc_def nth_list_update split: if_splits)

lemma occ_gridSet_zero: "gridSet g x y 0 = Inr g' \<Longrightarrow> occ g' = occ g - {(x, y)}"
  by (auto simp: occ_def cellOcc_gridSet)

lemma look_eq:
  "look guard nx ny st =
     (if guard \<and> \<not> inGrid (tgrid st) nx ny then Inl IndexFault
      else Inr (if guard \<and> cellOcc (tgrid st) (nx, ny) \<and> (nx, ny) \<notin> seen st
                then st\<lparr>stack := (nx, ny) # stack st\<rparr>
                else if (nx, ny) \<notin> seen st then st\<lparr>openEdges := openEdges st + 1\<rparr> else st))"
  by (auto simp: look_def isNewNeighbour_def gridGet_def hasBeenSeen_iff cellOcc_def)

text \<open>What one block leaves alone, and what it can push.\<close>

lemma look_frame:
  assumes "look guard nx ny st = Inr st'"
  shows "tgrid st' = tgrid st" and "seen st' = seen st"
    and "stack st' = stack st \<or>
         (stack st' = (nx, ny) # stack st \<and> cellOcc (tgrid st) (nx, ny))"
  using assms by (auto simp: look_eq split: if_splits)

lemma length_filter_mono:
  "(\<And>x. x \<in> set xs \<Longrightarrow> P x \<Longrightarrow> Q x) \<Longrightarrow> length (filter P xs) \<le> length (filter Q xs)"
  by (induction xs) auto

lemma look_measure:
  assumes "look guard nx ny st = Inr st'"
  shows "stale S (tgrid st) (stack st') = stale S (tgrid st) (stack st)"
    and "length (stack st') \<le> Suc (length (stack st))"
    and "tgrid st' = tgrid st" and "seen st' = seen st"
  using assms by (auto simp: look_eq stale_def split: if_splits)

lemma traceStep_decreases:
  assumes ne: "stack st \<noteq> []" and step: "traceStep mx my st = Inr st'"
  shows "(st', st) \<in> measures [staleCount, workLeft]"
proof -
  from ne obtain p rest where st: "stack st = p # rest" by (cases "stack st") auto
  from step st obtain g where g: "gridSet (tgrid st) (fst p) (snd p) 0 = Inr g"
    by (auto simp: traceStep_def split: sum.splits)
  define st0 where "st0 = st\<lparr>stack := rest, tgrid := g\<rparr>"
  have occg: "occ g = occ (tgrid st) - {p}" using occ_gridSet_zero[OF g] by simp
  have cell: "\<And>q. cellOcc g q \<longleftrightarrow> q \<noteq> p \<and> cellOcc (tgrid st) q"
    using cellOcc_gridSet[OF g] by auto
  have card_le: "card (occ g) \<le> card (occ (tgrid st))"
    unfolding occg by (rule card_mono[OF finite_occ]) auto
  show ?thesis
  proof (cases "p \<in> seen st")
    case True
    then have st': "st' = st0" using step st g
      by (simp add: traceStep_def st0_def hasBeenSeen_iff)
    have "filter (\<lambda>q. q \<notin> seen st \<and> \<not> cellOcc g q) rest
        = filter (\<lambda>q. q \<notin> seen st \<and> \<not> cellOcc (tgrid st) q) rest"
      by (rule filter_cong) (use True cell in auto)
    then have "staleCount st0 = staleCount st"
      using True by (simp add: staleCount_def stale_def st0_def st)
    moreover have "workLeft st0 < workLeft st"
      using card_le by (simp add: workLeft_def st0_def st)
    ultimately show ?thesis unfolding st' by (simp add: measures_def)
  next
    case False
    from step st g False obtain st1 st2 st3 st4 where
      l1: "look (fst p > 0) (fst p - 1) (snd p) st0 = Inr st1" and
      l2: "look (fst p < mx) (fst p + 1) (snd p) st1 = Inr st2" and
      l3: "look (snd p > 0) (fst p) (snd p - 1) st2 = Inr st3" and
      l4: "look (snd p < my) (fst p) (snd p + 1) st3 = Inr st4" and
      st': "st' = st4\<lparr>seenKeys := insert (joinKey (fst p) (snd p)) (seenKeys st4)\<rparr>"
      by (auto simp: traceStep_def st0_def Let_def hasBeenSeen_iff split: sum.splits)
    note m1 = look_measure[OF l1] and m2 = look_measure[OF l2]
      and m3 = look_measure[OF l3] and m4 = look_measure[OF l4]
    have g4: "tgrid st4 = g" and s4: "seen st4 = seen st"
      using m1 m2 m3 m4 by (simp_all add: st0_def)
    have g3: "tgrid st3 = g" and g2: "tgrid st2 = g" and g1: "tgrid st1 = g" and g0: "tgrid st0 = g"
      using m1 m2 m3 by (simp_all add: st0_def)
    have len: "length (stack st4) \<le> length rest + 4"
      using m1(2) m2(2) m3(2) m4(2) by (simp add: st0_def)
    have "stale (insert p (seen st)) g (stack st4) = stale (insert p (seen st)) g rest"
      using m1(1)[of "insert p (seen st)"] m2(1)[of "insert p (seen st)"]
        m3(1)[of "insert p (seen st)"] m4(1)[of "insert p (seen st)"]
      by (simp add: g0 g1 g2 g3) (simp add: st0_def)
    then have stale': "staleCount st' = stale (insert p (seen st)) g rest"
      by (simp add: st' staleCount_def g4 s4)
    have "stale (insert p (seen st)) g rest \<le> stale (seen st) (tgrid st) rest"
      unfolding stale_def by (rule length_filter_mono) (use cell in auto)
    then have rest_le: "staleCount st' \<le> stale (seen st) (tgrid st) rest"
      using stale' by simp
    show ?thesis
    proof (cases "cellOcc (tgrid st) p")
      case True
      then have "p \<in> occ (tgrid st)" by (simp add: occ_def)
      then have "card (occ (tgrid st)) = Suc (card (occ g))"
        unfolding occg by (rule card.remove[OF finite_occ])
      then have "workLeft st' < workLeft st"
        using len by (simp add: workLeft_def st' g4 st)
      moreover have "staleCount st' \<le> staleCount st"
        using rest_le True by (simp add: staleCount_def stale_def st)
      ultimately show ?thesis by (auto simp: measures_def)
    next
      case False
      then have "staleCount st = Suc (stale (seen st) (tgrid st) rest)"
        using \<open>p \<notin> seen st\<close> by (simp add: staleCount_def stale_def st)
      then show ?thesis using rest_le by (simp add: measures_def)
    qed
  qed
qed

function traceLoop :: "int \<Rightarrow> int \<Rightarrow> trace_state \<Rightarrow> error + trace_state" where
  "traceLoop mx my st =
     (if stack st = [] then Inr st
      else (case traceStep mx my st of
              Inl e \<Rightarrow> Inl e
            | Inr st' \<Rightarrow> traceLoop mx my st'))"
  by pat_completeness auto
termination
proof (relation "inv_image (measures [staleCount, workLeft]) (\<lambda>(mx, my, st). st)")
  show "wf (inv_image (measures [staleCount, workLeft]) (\<lambda>(mx, my, st). st))"
    by simp
next
  fix mx my :: int and st st' :: trace_state
  assume "stack st \<noteq> []" and "traceStep mx my st = Inr st'"
  then show "((mx, my, st'), (mx, my, st))
      \<in> inv_image (measures [staleCount, workLeft]) (\<lambda>(mx, my, st). st)"
    using traceStep_decreases by simp
qed

declare traceLoop.simps [simp del]

definition traceParcel :: "grid \<Rightarrow> int \<Rightarrow> int \<Rightarrow> int \<Rightarrow> int \<Rightarrow> error + (int \<times> grid)" where
  "traceParcel g x y mx my =
     (case traceLoop mx my \<lparr>tgrid = g, seenKeys = {}, stack = [(x, y)], openEdges = 0\<rparr> of
        Inl e \<Rightarrow> Inl e
      | Inr st \<Rightarrow> Inr (openEdges st, tgrid st))"

subsection \<open>findParcels and render\<close>

text \<open>
  The two nested \<^verbatim>\<open>for\<close> loops: \<open>scanY\<close> is the inner loop over \<open>y\<close> for one \<open>x\<close>,
  \<open>scanX\<close> the outer loop. Both return the grid as the traces left it, together with
  the perimeters pushed so far.
\<close>

function scanY :: "grid \<Rightarrow> int \<Rightarrow> int \<Rightarrow> int \<Rightarrow> int \<Rightarrow> int list \<Rightarrow> error + (int list \<times> grid)" where
  "scanY g x y mx my perimeters =
     (if y \<le> my then
        (case gridGet g x y of
           Inl e \<Rightarrow> Inl e
         | Inr v \<Rightarrow>
             if v \<noteq> 0 then
               (case traceParcel g x y mx my of
                  Inl e \<Rightarrow> Inl e
                | Inr (n, g') \<Rightarrow> scanY g' x (y + 1) mx my (perimeters @ [n]))
             else scanY g x (y + 1) mx my perimeters)
      else Inr (perimeters, g))"
  by pat_completeness auto
termination
  by (relation "measure (\<lambda>(g, x, y, mx, my, perimeters). nat (my + 1 - y))") auto

declare scanY.simps [simp del]

function scanX :: "grid \<Rightarrow> int \<Rightarrow> int \<Rightarrow> int \<Rightarrow> int list \<Rightarrow> error + (int list \<times> grid)" where
  "scanX g x mx my perimeters =
     (if x \<le> mx then
        (case scanY g x 0 mx my perimeters of
           Inl e \<Rightarrow> Inl e
         | Inr (perimeters', g') \<Rightarrow> scanX g' (x + 1) mx my perimeters')
      else Inr (perimeters, g))"
  by pat_completeness auto
termination
  by (relation "measure (\<lambda>(g, x, mx, my, perimeters). nat (mx + 1 - x))") auto

declare scanX.simps [simp del]

definition findParcels :: "grid \<Rightarrow> int \<Rightarrow> int \<Rightarrow> error + (int list \<times> grid)" where
  "findParcels g mx my = scanX g 0 mx my []"

text \<open>
  \<^verbatim>\<open>!points || !points.length\<close>: \<^verbatim>\<open>undefined\<close> is falsy; a number is falsy or has no
  \<^verbatim>\<open>length\<close>; a string or an array passes exactly when it is empty.
\<close>

definition noPoints :: "jsvalue \<Rightarrow> bool" where
  "noPoints points =
     (case points of
        JUndefined \<Rightarrow> True
      | JNumber n \<Rightarrow> True
      | JString s \<Rightarrow> s = []
      | JArray ps \<Rightarrow> ps = [])"

definition render :: "jsvalue \<Rightarrow> error + int list" where
  "render points =
     (if noPoints points then Inr []
      else (case parsePoints points of
              Inl e \<Rightarrow> Inl e
            | Inr gd \<Rightarrow>
                (case findParcels (grid gd) (maxX gd) (maxY gd) of
                   Inl e \<Rightarrow> Inl e
                 | Inr (perimeters, g') \<Rightarrow> Inr perimeters)))"

section \<open>The TypeScript port\<close>

text \<open>
  \<^verbatim>\<open>src/ParcelFinder.ts\<close>. The input is typed \<^verbatim>\<open>string[]\<close>, so the dynamic checks of the
  JavaScript version are gone. A point is the interface \<^verbatim>\<open>IPoint\<close> (its fields \<^verbatim>\<open>x\<close> and
  \<^verbatim>\<open>y\<close> are \<open>px\<close> and \<open>py\<close> here), the grid travels with its bounds in one \<^verbatim>\<open>IGrid\<close>
  object (the record \<open>gridData\<close>), and the tracer tests \<^verbatim>\<open>hasNotBeenSeen\<close>.
\<close>

record IPoint =
  px :: int
  py :: int

definition tsParsePoint :: "jsstring \<Rightarrow> error + IPoint" where
  "tsParsePoint point =
     (case matchPoint point of
        None \<Rightarrow> Inl (TypeError TYPE_ERROR_MSG)
      | Some (c1, c2) \<Rightarrow>
          (let gridPoint = \<lparr>px = parseInt10 c1, py = parseInt10 c2\<rparr>
           in if px gridPoint > MAX_VALUE \<or> py gridPoint > MAX_VALUE
              then Inl (RangeError RANGE_ERROR_MSG)
              else Inr gridPoint))"

fun tsValidatePoints ::
  "jsstring list \<Rightarrow> IPoint list \<Rightarrow> int \<Rightarrow> int \<Rightarrow> error + (IPoint list \<times> int \<times> int)" where
  "tsValidatePoints [] parsedPoints mx my = Inr (parsedPoints, mx, my)"
| "tsValidatePoints (point # rest) parsedPoints mx my =
     (case tsParsePoint point of
        Inl e \<Rightarrow> Inl e
      | Inr gridPoint \<Rightarrow>
          tsValidatePoints rest (parsedPoints @ [gridPoint])
            (max mx (px gridPoint)) (max my (py gridPoint)))"

fun tsPopulate :: "IPoint list \<Rightarrow> grid \<Rightarrow> error + grid" where
  "tsPopulate [] g = Inr g"
| "tsPopulate (point # rest) g =
     (case gridSet g (px point) (py point) 1 of
        Inl e \<Rightarrow> Inl e
      | Inr g' \<Rightarrow> tsPopulate rest g')"

definition tsParsePoints :: "jsstring list \<Rightarrow> error + gridData" where
  "tsParsePoints points =
     (case tsValidatePoints points [] (- 1) (- 1) of
        Inl e \<Rightarrow> Inl e
      | Inr (parsedPoints, mx, my) \<Rightarrow>
          (case createEmptyGrid mx my of
             Inl e \<Rightarrow> Inl e
           | Inr g0 \<Rightarrow>
               (case tsPopulate parsedPoints g0 of
                  Inl e \<Rightarrow> Inl e
                | Inr g \<Rightarrow> Inr \<lparr>grid = g, maxX = mx, maxY = my\<rparr>)))"

record ts_trace_state =
  tsGridData :: gridData
  tsSeenKeys :: "string set"
  tsStack :: "IPoint list"
  tsOpenEdges :: int

definition hasNotBeenSeen :: "ts_trace_state \<Rightarrow> int \<Rightarrow> int \<Rightarrow> bool" where
  "hasNotBeenSeen st x y \<longleftrightarrow> joinKey x y \<notin> tsSeenKeys st"

definition tsIsNewNeighbour :: "ts_trace_state \<Rightarrow> int \<Rightarrow> int \<Rightarrow> error + bool" where
  "tsIsNewNeighbour st x y =
     (case gridGet (grid (tsGridData st)) x y of
        Inl e \<Rightarrow> Inl e
      | Inr v \<Rightarrow> Inr (v \<noteq> 0 \<and> hasNotBeenSeen st x y))"

definition tsLook :: "bool \<Rightarrow> int \<Rightarrow> int \<Rightarrow> ts_trace_state \<Rightarrow> error + ts_trace_state" where
  "tsLook guard nx ny st =
     (case (if guard then tsIsNewNeighbour st nx ny else Inr False) of
        Inl e \<Rightarrow> Inl e
      | Inr b \<Rightarrow>
          if b then Inr (st\<lparr>tsStack := \<lparr>px = nx, py = ny\<rparr> # tsStack st\<rparr>)
          else if hasNotBeenSeen st nx ny then Inr (st\<lparr>tsOpenEdges := tsOpenEdges st + 1\<rparr>)
          else Inr st)"

definition tsTraceStep :: "ts_trace_state \<Rightarrow> error + ts_trace_state" where
  "tsTraceStep st =
     (case tsStack st of
        [] \<Rightarrow> Inr st
      | evaluatedPoint # rest \<Rightarrow>
          (case gridSet (grid (tsGridData st)) (px evaluatedPoint) (py evaluatedPoint) 0 of
             Inl e \<Rightarrow> Inl e
           | Inr g \<Rightarrow>
               (let st0 = st\<lparr>tsStack := rest, tsGridData := (tsGridData st)\<lparr>grid := g\<rparr>\<rparr>
                in if hasNotBeenSeen st0 (px evaluatedPoint) (py evaluatedPoint) then
                     (case tsLook (px evaluatedPoint > 0)
                             (px evaluatedPoint - 1) (py evaluatedPoint) st0 of
                        Inl e \<Rightarrow> Inl e
                      | Inr st1 \<Rightarrow>
                     (case tsLook (px evaluatedPoint < maxX (tsGridData st1))
                             (px evaluatedPoint + 1) (py evaluatedPoint) st1 of
                        Inl e \<Rightarrow> Inl e
                      | Inr st2 \<Rightarrow>
                     (case tsLook (py evaluatedPoint > 0)
                             (px evaluatedPoint) (py evaluatedPoint - 1) st2 of
                        Inl e \<Rightarrow> Inl e
                      | Inr st3 \<Rightarrow>
                     (case tsLook (py evaluatedPoint < maxY (tsGridData st3))
                             (px evaluatedPoint) (py evaluatedPoint + 1) st3 of
                        Inl e \<Rightarrow> Inl e
                      | Inr st4 \<Rightarrow>
                          Inr (st4\<lparr>tsSeenKeys :=
                                 insert (joinKey (px evaluatedPoint) (py evaluatedPoint))
                                   (tsSeenKeys st4)\<rparr>)))))
                   else Inr st0)))"

text \<open>
  The JavaScript loop state that a TypeScript loop state stands for.
\<close>

definition toJs :: "ts_trace_state \<Rightarrow> trace_state" where
  "toJs st =
     \<lparr>tgrid = grid (tsGridData st), seenKeys = tsSeenKeys st,
      stack = map (\<lambda>p. (px p, py p)) (tsStack st), openEdges = tsOpenEdges st\<rparr>"

lemma tsLook_toJs:
  "map_sum id toJs (tsLook guard nx ny st) = look guard nx ny (toJs st)"
  by (auto simp: tsLook_def look_def tsIsNewNeighbour_def isNewNeighbour_def hasNotBeenSeen_def
      hasBeenSeen_def toJs_def split: sum.splits)

lemma tsLook_frame:
  "tsLook guard nx ny st = Inr st' \<Longrightarrow>
   maxX (tsGridData st') = maxX (tsGridData st) \<and> maxY (tsGridData st') = maxY (tsGridData st)"
  by (auto simp: tsLook_def split: sum.splits if_splits)

lemma map_sum_Inr_iff: "map_sum id f s = Inr b \<longleftrightarrow> (\<exists>a. s = Inr a \<and> b = f a)"
  by (cases s) auto

lemma map_sum_Inl_iff: "map_sum id f s = Inl e \<longleftrightarrow> s = Inl e"
  by (cases s) auto

lemma tsTraceStep_toJs:
  "map_sum id toJs (tsTraceStep st)
     = traceStep (maxX (tsGridData st)) (maxY (tsGridData st)) (toJs st)"
proof (cases "tsStack st")
  case Nil
  then show ?thesis by (simp add: tsTraceStep_def traceStep_def toJs_def)
next
  case (Cons p rest)
  let ?d = "tsGridData st"
  have js: "stack (toJs st) = (px p, py p) # map (\<lambda>p. (px p, py p)) rest"
    by (simp add: toJs_def Cons)
  show ?thesis
  proof (cases "gridSet (grid ?d) (px p) (py p) 0")
    case (Inl e)
    then show ?thesis using Cons by (simp add: tsTraceStep_def traceStep_def toJs_def)
  next
    case (Inr g)
    define st0 where "st0 = st\<lparr>tsStack := rest, tsGridData := ?d\<lparr>grid := g\<rparr>\<rparr>"
    define j0 where "j0 = (toJs st)\<lparr>stack := map (\<lambda>p. (px p, py p)) rest, tgrid := g\<rparr>"
    have j0: "toJs st0 = j0" by (simp add: st0_def j0_def toJs_def)
    have m0: "maxX (tsGridData st0) = maxX ?d" "maxY (tsGridData st0) = maxY ?d"
      by (simp_all add: st0_def)
    show ?thesis
    proof (cases "joinKey (px p) (py p) \<in> tsSeenKeys st")
      case True
      then show ?thesis
        using Cons Inr
        by (simp add: tsTraceStep_def traceStep_def toJs_def hasNotBeenSeen_def hasBeenSeen_def)
    next
      case False
      have lhs: "tsTraceStep st =
        (case tsLook (px p > 0) (px p - 1) (py p) st0 of
           Inl e \<Rightarrow> Inl e
         | Inr st1 \<Rightarrow>
        (case tsLook (px p < maxX (tsGridData st1)) (px p + 1) (py p) st1 of
           Inl e \<Rightarrow> Inl e
         | Inr st2 \<Rightarrow>
        (case tsLook (py p > 0) (px p) (py p - 1) st2 of
           Inl e \<Rightarrow> Inl e
         | Inr st3 \<Rightarrow>
        (case tsLook (py p < maxY (tsGridData st3)) (px p) (py p + 1) st3 of
           Inl e \<Rightarrow> Inl e
         | Inr st4 \<Rightarrow>
             Inr (st4\<lparr>tsSeenKeys := insert (joinKey (px p) (py p)) (tsSeenKeys st4)\<rparr>)))))"
        using Cons Inr False
        by (simp add: tsTraceStep_def hasNotBeenSeen_def st0_def[symmetric] Let_def)
      have rhs: "traceStep (maxX ?d) (maxY ?d) (toJs st) =
        (case look (px p > 0) (px p - 1) (py p) j0 of
           Inl e \<Rightarrow> Inl e
         | Inr st1 \<Rightarrow>
        (case look (px p < maxX ?d) (px p + 1) (py p) st1 of
           Inl e \<Rightarrow> Inl e
         | Inr st2 \<Rightarrow>
        (case look (py p > 0) (px p) (py p - 1) st2 of
           Inl e \<Rightarrow> Inl e
         | Inr st3 \<Rightarrow>
        (case look (py p < maxY ?d) (px p) (py p + 1) st3 of
           Inl e \<Rightarrow> Inl e
         | Inr st4 \<Rightarrow>
             Inr (st4\<lparr>seenKeys := insert (joinKey (px p) (py p)) (seenKeys st4)\<rparr>)))))"
        using Inr False
        by (simp add: traceStep_def hasBeenSeen_def Let_def toJs_def j0_def Cons
            cong: sum.case_cong)
      note l1 = tsLook_toJs[of "px p > 0" "px p - 1" "py p" st0, unfolded j0, symmetric]
      show ?thesis
      proof (cases "tsLook (px p > 0) (px p - 1) (py p) st0")
        case (Inl e)
        then show ?thesis using l1 by (simp add: lhs rhs)
      next
        case st1: (Inr st1)
        then have j1: "look (px p > 0) (px p - 1) (py p) j0 = Inr (toJs st1)" using l1 by simp
        have m1: "maxX (tsGridData st1) = maxX ?d" "maxY (tsGridData st1) = maxY ?d"
          using tsLook_frame[OF st1] m0 by simp_all
        note l2 = tsLook_toJs[of "px p < maxX ?d" "px p + 1" "py p" st1, symmetric]
        show ?thesis
        proof (cases "tsLook (px p < maxX ?d) (px p + 1) (py p) st1")
          case (Inl e)
          then show ?thesis using l2 st1 j1 m1 by (simp add: lhs rhs)
        next
          case st2: (Inr st2)
          then have j2: "look (px p < maxX ?d) (px p + 1) (py p) (toJs st1) = Inr (toJs st2)"
            using l2 by simp
          have m2: "maxX (tsGridData st2) = maxX ?d" "maxY (tsGridData st2) = maxY ?d"
            using tsLook_frame[OF st2] m1 by simp_all
          note l3 = tsLook_toJs[of "py p > 0" "px p" "py p - 1" st2, symmetric]
          show ?thesis
          proof (cases "tsLook (py p > 0) (px p) (py p - 1) st2")
            case (Inl e)
            then show ?thesis using l3 st1 j1 m1 st2 j2 m2 by (simp add: lhs rhs)
          next
            case st3: (Inr st3)
            then have j3: "look (py p > 0) (px p) (py p - 1) (toJs st2) = Inr (toJs st3)"
              using l3 by simp
            have m3: "maxX (tsGridData st3) = maxX ?d" "maxY (tsGridData st3) = maxY ?d"
              using tsLook_frame[OF st3] m2 by simp_all
            note l4 = tsLook_toJs[of "py p < maxY ?d" "px p" "py p + 1" st3, symmetric]
            show ?thesis
            proof (cases "tsLook (py p < maxY ?d) (px p) (py p + 1) st3")
              case (Inl e)
              then show ?thesis using l4 st1 j1 m1 st2 j2 m2 st3 j3 m3 by (simp add: lhs rhs)
            next
              case st4: (Inr st4)
              then have j4: "look (py p < maxY ?d) (px p) (py p + 1) (toJs st3) = Inr (toJs st4)"
                using l4 by simp
              show ?thesis
                using st1 j1 m1 st2 j2 m2 st3 j3 m3 st4 j4
                by (simp add: lhs rhs) (simp add: toJs_def)
            qed
          qed
        qed
      qed
    qed
  qed
qed

lemma tsTraceStep_frame:
  "tsTraceStep st = Inr st' \<Longrightarrow>
   maxX (tsGridData st') = maxX (tsGridData st) \<and> maxY (tsGridData st') = maxY (tsGridData st)"
  by (auto simp: tsTraceStep_def Let_def split: list.splits sum.splits if_splits
      dest!: tsLook_frame)

lemma tsTraceStep_decreases:
  assumes "tsStack st \<noteq> []" and "tsTraceStep st = Inr st'"
  shows "(toJs st', toJs st) \<in> measures [staleCount, workLeft]"
proof -
  have "stack (toJs st) \<noteq> []" using assms(1) by (simp add: toJs_def)
  moreover have "traceStep (maxX (tsGridData st)) (maxY (tsGridData st)) (toJs st) = Inr (toJs st')"
    using tsTraceStep_toJs[of st] assms(2) by simp
  ultimately show ?thesis by (rule traceStep_decreases)
qed

function tsTraceLoop :: "ts_trace_state \<Rightarrow> error + ts_trace_state" where
  "tsTraceLoop st =
     (if tsStack st = [] then Inr st
      else (case tsTraceStep st of
              Inl e \<Rightarrow> Inl e
            | Inr st' \<Rightarrow> tsTraceLoop st'))"
  by pat_completeness auto
termination
proof (relation "inv_image (measures [staleCount, workLeft]) toJs")
  show "wf (inv_image (measures [staleCount, workLeft]) toJs)" by simp
next
  fix st st' :: ts_trace_state
  assume "tsStack st \<noteq> []" and "tsTraceStep st = Inr st'"
  then show "(st', st) \<in> inv_image (measures [staleCount, workLeft]) toJs"
    using tsTraceStep_decreases by simp
qed

declare tsTraceLoop.simps [simp del]

definition tsTraceParcel :: "gridData \<Rightarrow> int \<Rightarrow> int \<Rightarrow> error + (int \<times> gridData)" where
  "tsTraceParcel gd pX pY =
     (case tsTraceLoop
             \<lparr>tsGridData = gd, tsSeenKeys = {}, tsStack = [\<lparr>px = pX, py = pY\<rparr>], tsOpenEdges = 0\<rparr> of
        Inl e \<Rightarrow> Inl e
      | Inr st \<Rightarrow> Inr (tsOpenEdges st, tsGridData st))"

lemma tsTraceLoop_toJs:
  "map_sum id toJs (tsTraceLoop st)
     = traceLoop (maxX (tsGridData st)) (maxY (tsGridData st)) (toJs st)"
proof (induction st rule: tsTraceLoop.induct)
  case (1 st)
  show ?case
  proof (cases "tsStack st = []")
    case True
    then have "stack (toJs st) = []" by (simp add: toJs_def)
    then show ?thesis
      using True by (subst tsTraceLoop.simps, subst traceLoop.simps) simp
  next
    case False
    then have ne: "stack (toJs st) \<noteq> []" by (simp add: toJs_def)
    show ?thesis
    proof (cases "tsTraceStep st")
      case (Inl e)
      then have "traceStep (maxX (tsGridData st)) (maxY (tsGridData st)) (toJs st) = Inl e"
        using tsTraceStep_toJs[of st] by simp
      then show ?thesis
        using False ne Inl by (subst tsTraceLoop.simps, subst traceLoop.simps) simp
    next
      case (Inr st')
      then have "traceStep (maxX (tsGridData st)) (maxY (tsGridData st)) (toJs st) = Inr (toJs st')"
        using tsTraceStep_toJs[of st] by simp
      then have js: "traceLoop (maxX (tsGridData st)) (maxY (tsGridData st)) (toJs st)
          = traceLoop (maxX (tsGridData st)) (maxY (tsGridData st)) (toJs st')"
        using ne by (subst traceLoop.simps) simp
      have ts: "tsTraceLoop st = tsTraceLoop st'"
        using False Inr by (subst tsTraceLoop.simps) simp
      have m: "maxX (tsGridData st') = maxX (tsGridData st)" "maxY (tsGridData st') = maxY (tsGridData st)"
        using tsTraceStep_frame[OF Inr] by simp_all
      show ?thesis
        unfolding ts js using 1[OF False Inr] unfolding m .
    qed
  qed
qed

lemma tsTraceLoop_frame:
  "tsTraceLoop st = Inr st' \<Longrightarrow>
   maxX (tsGridData st') = maxX (tsGridData st) \<and> maxY (tsGridData st') = maxY (tsGridData st)"
proof (induction st rule: tsTraceLoop.induct)
  case (1 st)
  show ?case
  proof (cases "tsStack st = []")
    case True
    then show ?thesis using 1(2) by (subst (asm) tsTraceLoop.simps) simp
  next
    case False
    with 1(2) obtain st1 where s: "tsTraceStep st = Inr st1" and l: "tsTraceLoop st1 = Inr st'"
      by (subst (asm) tsTraceLoop.simps) (auto split: sum.splits)
    from 1(1)[OF False s l] tsTraceStep_frame[OF s] show ?thesis by simp
  qed
qed

lemma tsTraceParcel_frame:
  "tsTraceParcel gd x y = Inr (n, gd') \<Longrightarrow> maxX gd' = maxX gd \<and> maxY gd' = maxY gd"
  by (auto simp: tsTraceParcel_def split: sum.splits dest!: tsTraceLoop_frame)

lemma tsTraceParcel_eq:
  "map_sum id (\<lambda>(n, gd'). (n, grid gd')) (tsTraceParcel gd x y)
     = traceParcel (grid gd) x y (maxX gd) (maxY gd)"
proof -
  let ?st = "\<lparr>tsGridData = gd, tsSeenKeys = {}, tsStack = [\<lparr>px = x, py = y\<rparr>], tsOpenEdges = 0\<rparr>"
  have j: "toJs ?st = \<lparr>tgrid = grid gd, seenKeys = {}, stack = [(x, y)], openEdges = 0\<rparr>"
    by (simp add: toJs_def)
  from tsTraceLoop_toJs[of ?st, symmetric] show ?thesis
    unfolding j by (cases "tsTraceLoop ?st") (auto simp: tsTraceParcel_def traceParcel_def toJs_def)
qed

function tsScanY :: "gridData \<Rightarrow> int \<Rightarrow> int \<Rightarrow> int list \<Rightarrow> error + (int list \<times> gridData)" where
  "tsScanY gd x y perimeters =
     (if y \<le> maxY gd then
        (case gridGet (grid gd) x y of
           Inl e \<Rightarrow> Inl e
         | Inr v \<Rightarrow>
             if v \<noteq> 0 then
               (case tsTraceParcel gd x y of
                  Inl e \<Rightarrow> Inl e
                | Inr (n, gd') \<Rightarrow> tsScanY gd' x (y + 1) (perimeters @ [n]))
             else tsScanY gd x (y + 1) perimeters)
      else Inr (perimeters, gd))"
  by pat_completeness auto
termination
  by (relation "measure (\<lambda>(gd, x, y, perimeters). nat (maxY gd + 1 - y))")
     (auto dest: tsTraceParcel_frame)

declare tsScanY.simps [simp del]

lemma tsScanY_frame:
  "tsScanY gd x y perimeters = Inr (ps, gd') \<Longrightarrow> maxX gd' = maxX gd \<and> maxY gd' = maxY gd"
proof (induction gd x y perimeters rule: tsScanY.induct)
  case (1 gd x y perimeters)
  show ?case
  proof (cases "y \<le> maxY gd")
    case False
    then show ?thesis using 1(3) by (subst (asm) tsScanY.simps) simp
  next
    case True
    from 1(3) True obtain v where v: "gridGet (grid gd) x y = Inr v"
      by (subst (asm) tsScanY.simps) (auto split: sum.splits)
    show ?thesis
    proof (cases "v \<noteq> 0")
      case nz: True
      from 1(3) True v nz obtain n gd1 where t: "tsTraceParcel gd x y = Inr (n, gd1)"
        and r: "tsScanY gd1 x (y + 1) (perimeters @ [n]) = Inr (ps, gd')"
        by (subst (asm) tsScanY.simps) (auto split: sum.splits)
      from 1(1)[OF True v nz t refl r] tsTraceParcel_frame[OF t] show ?thesis by simp
    next
      case z: False
      from 1(3) True v z have r: "tsScanY gd x (y + 1) perimeters = Inr (ps, gd')"
        by (subst (asm) tsScanY.simps) simp
      from 1(2)[OF True v z r] show ?thesis .
    qed
  qed
qed

function tsScanX :: "gridData \<Rightarrow> int \<Rightarrow> int list \<Rightarrow> error + (int list \<times> gridData)" where
  "tsScanX gd x perimeters =
     (if x \<le> maxX gd then
        (case tsScanY gd x 0 perimeters of
           Inl e \<Rightarrow> Inl e
         | Inr (perimeters', gd') \<Rightarrow> tsScanX gd' (x + 1) perimeters')
      else Inr (perimeters, gd))"
  by pat_completeness auto
termination
  by (relation "measure (\<lambda>(gd, x, perimeters). nat (maxX gd + 1 - x))")
     (auto dest: tsScanY_frame)

declare tsScanX.simps [simp del]

definition tsFindParcels :: "gridData \<Rightarrow> error + (int list \<times> gridData)" where
  "tsFindParcels gd = tsScanX gd 0 []"

definition computeParcelPerimeters :: "jsstring list \<Rightarrow> error + int list" where
  "computeParcelPerimeters points =
     (if points = [] then Inr []
      else (case tsParsePoints points of
              Inl e \<Rightarrow> Inl e
            | Inr gd \<Rightarrow>
                (case tsFindParcels gd of
                   Inl e \<Rightarrow> Inl e
                 | Inr (perimeters, gd') \<Rightarrow> Inr perimeters)))"

section \<open>Notions used to state the properties\<close>

definition digits :: "jsstring \<Rightarrow> bool" where
  "digits ds \<longleftrightarrow> ds \<noteq> [] \<and> list_all isDigit ds"

definition spaces :: "jsstring \<Rightarrow> bool" where
  "spaces ws \<longleftrightarrow> list_all isSpace ws"

text \<open>
  The pattern in the words of the specification: optional white space, digits, optional
  white space, a comma, optional white space, digits.
\<close>

definition specShape :: "jsstring \<Rightarrow> bool" where
  "specShape s \<longleftrightarrow>
     (\<exists>w0 d1 w1 w2 d2. spaces w0 \<and> digits d1 \<and> spaces w1 \<and> spaces w2 \<and> digits d2 \<and>
        s = w0 @ d1 @ w1 @ [comma] @ w2 @ d2)"

text \<open>The pattern the regular expression of the source describes: no leading white space.\<close>

definition sourceShape :: "jsstring \<Rightarrow> bool" where
  "sourceShape s \<longleftrightarrow>
     (\<exists>d1 w1 w2 d2. digits d1 \<and> spaces w1 \<and> spaces w2 \<and> digits d2 \<and>
        s = d1 @ w1 @ [comma] @ w2 @ d2)"

text \<open>
  A grid has consistent bounds \<open>(mx, my)\<close> when it has \<open>mx + 1\<close> rows of \<open>my + 1\<close> cells
  each, which is what \<^verbatim>\<open>createEmptyGrid(mx, my)\<close> allocates.
\<close>

definition rect :: "grid \<Rightarrow> int \<Rightarrow> int \<Rightarrow> bool" where
  "rect g mx my \<longleftrightarrow> length g = nat (mx + 1) \<and> (\<forall>row\<in>set g. length row = nat (my + 1))"

text \<open>
  The four neighbours of a cell in the order the loop body looks at them: left, right,
  down, up.
\<close>

definition nbrs :: "int \<times> int \<Rightarrow> (int \<times> int) list" where
  "nbrs p = [(fst p - 1, snd p), (fst p + 1, snd p), (fst p, snd p - 1), (fst p, snd p + 1)]"

text \<open>
  What one block does to the state when its guard agrees with the bounds of the grid.
\<close>

definition visit :: "int \<times> int \<Rightarrow> trace_state \<Rightarrow> trace_state" where
  "visit q st =
     (if cellOcc (tgrid st) q \<and> q \<notin> seen st then st\<lparr>stack := q # stack st\<rparr>
      else if q \<notin> seen st then st\<lparr>openEdges := openEdges st + 1\<rparr>
      else st)"

text \<open>
  The edges of a cell that face a cell outside the set, the perimeter of a set of cells,
  4-adjacency inside a set and the parcel (the maximal 4-connected component) of a cell.
\<close>

definition openAt :: "(int \<times> int) set \<Rightarrow> int \<times> int \<Rightarrow> int" where
  "openAt G p = int (length (filter (\<lambda>q. q \<notin> G) (nbrs p)))"

definition perimeter :: "(int \<times> int) set \<Rightarrow> int" where
  "perimeter S = (\<Sum>p\<in>S. openAt S p)"

definition adj :: "(int \<times> int) set \<Rightarrow> ((int \<times> int) \<times> (int \<times> int)) set" where
  "adj G = {(p, q). p \<in> G \<and> q \<in> G \<and> q \<in> set (nbrs p)}"

definition component :: "(int \<times> int) set \<Rightarrow> int \<times> int \<Rightarrow> (int \<times> int) set" where
  "component G p = {q. (p, q) \<in> (adj G)\<^sup>*}"

definition within :: "(int \<times> int) set \<Rightarrow> int \<Rightarrow> int \<Rightarrow> bool" where
  "within G mx my \<longleftrightarrow> (\<forall>p\<in>G. 0 \<le> fst p \<and> fst p \<le> mx \<and> 0 \<le> snd p \<and> snd p \<le> my)"

text \<open>
  The invariant of the loop, for the set \<open>G\<close> of cells occupied when the trace starts at
  \<open>c\<close>: the occupied cells are those of \<open>G\<close> not yet seen; the seen cells and the stack
  stay inside the parcel of \<open>c\<close>; every neighbour in \<open>G\<close> of a seen cell is seen or on the
  stack; and \<open>openEdges\<close> counts the edges of the seen cells that face a cell outside
  \<open>G\<close>.
\<close>

definition traceInv :: "(int \<times> int) set \<Rightarrow> int \<times> int \<Rightarrow> int \<Rightarrow> int \<Rightarrow> trace_state \<Rightarrow> bool" where
  "traceInv G c mx my st \<longleftrightarrow>
     rect (tgrid st) mx my \<and>
     occ (tgrid st) = G - seen st \<and>
     c \<in> seen st \<union> set (stack st) \<and>
     seen st \<union> set (stack st) \<subseteq> component G c \<and>
     (\<forall>p\<in>seen st. \<forall>q\<in>set (nbrs p). q \<in> G \<longrightarrow> q \<in> seen st \<or> q \<in> set (stack st)) \<and>
     openEdges st = (\<Sum>p\<in>seen st. openAt G p)"

text \<open>
  The scan, abstractly: walking a list of cells over a set of occupied cells, each
  occupied cell met yields the perimeter of its parcel and removes the parcel.
\<close>

fun sweep :: "(int \<times> int) set \<Rightarrow> (int \<times> int) list \<Rightarrow> int list \<times> (int \<times> int) set" where
  "sweep G [] = ([], G)"
| "sweep G (c # cs) =
     (if c \<in> G then
        (let r = sweep (G - component G c) cs in (perimeter (component G c) # fst r, snd r))
      else sweep G cs)"

definition cells :: "int \<Rightarrow> int \<Rightarrow> int \<Rightarrow> (int \<times> int) list" where
  "cells x mx my = concat (map (\<lambda>i. map (Pair i) [0..my]) [x..mx])"

text \<open>
  The scan order (\<open>x\<close> ascending, then \<open>y\<close> ascending), and the leader of a parcel: its
  least cell in that order.
\<close>

definition scanBefore :: "int \<times> int \<Rightarrow> int \<times> int \<Rightarrow> bool" where
  "scanBefore p q \<longleftrightarrow> fst p < fst q \<or> (fst p = fst q \<and> snd p < snd q)"

definition leader :: "(int \<times> int) set \<Rightarrow> int \<times> int \<Rightarrow> bool" where
  "leader G c \<longleftrightarrow> c \<in> G \<and> (\<forall>q\<in>component G c. q = c \<or> scanBefore c q)"

definition closedIn :: "(int \<times> int) set \<Rightarrow> (int \<times> int) set \<Rightarrow> bool" where
  "closedIn G H \<longleftrightarrow> H \<subseteq> G \<and> (\<forall>p\<in>H. component G p \<subseteq> H)"

text \<open>
  A straight run of \<open>N\<close> cells from \<open>(x0, y0)\<close> in direction \<open>(dx, dy)\<close>, which is
  \<open>(1, 0)\<close> for a horizontal and \<open>(0, 1)\<close> for a vertical run.
\<close>

definition run :: "int \<Rightarrow> int \<Rightarrow> int \<Rightarrow> int \<Rightarrow> nat \<Rightarrow> (int \<times> int) set" where
  "run x0 y0 dx dy N = (\<lambda>i. (x0 + int i * dx, y0 + int i * dy)) ` {..<N}"

definition pairOf :: "IPoint \<Rightarrow> int \<times> int" where
  "pairOf p = (px p, py p)"

section \<open>Validation of the input\<close>

subsection \<open>The regular expression as a language\<close>

lemma digit_not_space: "isDigit c \<Longrightarrow> \<not> isSpace c"
  by (auto simp: isDigit_def isSpace_def word_le_nat_alt)

lemma comma_not_digit: "\<not> isDigit comma"
  by (simp add: isDigit_def comma_def)

lemma comma_not_space: "\<not> isSpace comma"
  by (simp add: isSpace_def comma_def)

lemma takeWhile_run:
  "list_all P xs \<Longrightarrow> ys = [] \<or> \<not> P (hd ys) \<Longrightarrow> takeWhile P (xs @ ys) = xs"
  by (cases ys) (auto simp: list_all_iff takeWhile_append2)

lemma dropWhile_run:
  "list_all P xs \<Longrightarrow> ys = [] \<or> \<not> P (hd ys) \<Longrightarrow> dropWhile P (xs @ ys) = ys"
  by (cases ys) (auto simp: list_all_iff dropWhile_append2)

lemma hd_spaces_not_digit: "spaces w \<Longrightarrow> \<not> isDigit (hd (w @ comma # r))"
  by (cases w) (auto simp: spaces_def comma_not_digit digit_not_space)

lemma hd_digits_not_space: "digits d \<Longrightarrow> \<not> isSpace (hd (d @ r))"
  by (cases d) (auto simp: digits_def digit_not_space)

lemma matchPoint_complete:
  assumes "digits d1" "spaces w1" "spaces w2" "digits d2"
  shows "matchPoint (d1 @ w1 @ [comma] @ w2 @ d2) = Some (d1, d2)"
proof -
  let ?s = "d1 @ w1 @ comma # w2 @ d2"
  have t1: "takeWhile isDigit ?s = d1"
    using assms(1) hd_spaces_not_digit[OF assms(2)] by (intro takeWhile_run) (auto simp: digits_def)
  have t2: "dropWhile isDigit ?s = w1 @ comma # w2 @ d2"
    using assms(1) hd_spaces_not_digit[OF assms(2)] by (intro dropWhile_run) (auto simp: digits_def)
  have t3: "dropWhile isSpace (w1 @ comma # w2 @ d2) = comma # w2 @ d2"
    using assms(2) by (intro dropWhile_run) (auto simp: spaces_def comma_not_space)
  have t4: "dropWhile isSpace (w2 @ d2) = d2"
    using assms(3) hd_digits_not_space[OF assms(4), of "[]"]
    by (intro dropWhile_run) (auto simp: spaces_def)
  have "matchPoint ?s = Some (d1, d2)"
    unfolding matchPoint_def Let_def t1 t2 t3 list.case t4
    using assms(1,4) by (simp add: digits_def)
  then show ?thesis by simp
qed

lemma matchPoint_sound:
  assumes "matchPoint s = Some (d1, d2)"
  shows "\<exists>w1 w2. digits d1 \<and> spaces w1 \<and> spaces w2 \<and> digits d2 \<and> s = d1 @ w1 @ [comma] @ w2 @ d2"
proof -
  define r0 where "r0 = dropWhile isDigit s"
  define w1 where "w1 = takeWhile isSpace r0"
  define r1 where "r1 = dropWhile isSpace r0"
  from assms obtain r2 where r1: "r1 = comma # r2" and d1: "d1 = takeWhile isDigit s" "d1 \<noteq> []"
    and d2: "d2 = dropWhile isSpace r2" "d2 \<noteq> []" "list_all isDigit d2"
    by (auto simp: matchPoint_def Let_def r1_def r0_def split: if_splits list.splits)
  define w2 where "w2 = takeWhile isSpace r2"
  have "s = d1 @ r0" by (simp add: d1 r0_def)
  moreover have "r0 = w1 @ r1" by (simp add: w1_def r1_def)
  moreover have "r2 = w2 @ d2" by (simp add: w2_def d2)
  ultimately have "s = d1 @ w1 @ [comma] @ w2 @ d2" using r1 by simp
  moreover have "digits d1" using d1 by (auto simp: digits_def list_all_iff dest: set_takeWhileD)
  moreover have "digits d2" using d2 by (simp add: digits_def)
  moreover have "spaces w1" "spaces w2"
    by (auto simp: spaces_def w1_def w2_def list_all_iff dest: set_takeWhileD)
  ultimately show ?thesis by blast
qed

lemma sourceShape_iff: "sourceShape s \<longleftrightarrow> matchPoint s \<noteq> None"
proof
  assume "sourceShape s"
  then show "matchPoint s \<noteq> None"
    by (auto simp: sourceShape_def matchPoint_complete simp del: append.simps)
next
  assume "matchPoint s \<noteq> None"
  then obtain d1 d2 where "matchPoint s = Some (d1, d2)" by auto
  from matchPoint_sound[OF this] show "sourceShape s"
    unfolding sourceShape_def by blast
qed

lemma parsePoint_TypeError_iff:
  "parsePoint (JString s) = Inl (TypeError TYPE_ERROR_MSG) \<longleftrightarrow> \<not> sourceShape s"
  by (auto simp: parsePoint_def sourceShape_iff Let_def split: option.splits)

subsection \<open>The validation loop\<close>

lemma validatePoints_append:
  "validatePoints (ps @ qs) acc mx my =
     (case validatePoints ps acc mx my of
        Inl e \<Rightarrow> Inl e
      | Inr (a, mx', my') \<Rightarrow> validatePoints qs a mx' my')"
  by (induction ps arbitrary: acc mx my) (auto split: sum.splits)

lemma validatePoints_valid:
  "\<forall>p\<in>set ps. \<not> isl (parsePoint p) \<Longrightarrow> \<exists>r. validatePoints ps acc mx my = Inr r"
proof (induction ps arbitrary: acc mx my)
  case Nil
  then show ?case by simp
next
  case (Cons p ps)
  then obtain x y where "parsePoint p = Inr (x, y)"
    by (cases "parsePoint p") auto
  with Cons show ?case by simp
qed

lemma validatePoints_first_invalid:
  assumes "\<forall>p\<in>set pre. \<not> isl (parsePoint p)" and "parsePoint q = Inl e"
  shows "validatePoints (pre @ q # post) acc mx my = Inl e"
proof -
  from validatePoints_valid[OF assms(1)] obtain a mx' my'
    where "validatePoints pre acc mx my = Inr (a, mx', my')"
    by (metis prod_cases3)
  then show ?thesis using assms(2) by (simp add: validatePoints_append)
qed

lemma render_first_invalid:
  assumes "\<forall>p\<in>set pre. \<not> isl (parsePoint p)" and "parsePoint q = Inl e"
  shows "render (JArray (pre @ q # post)) = Inl e"
  using validatePoints_first_invalid[OF assms]
  by (simp add: render_def noPoints_def parsePoints_def)

lemma find_split:
  "find P xs = Some q \<Longrightarrow> xs = takeWhile (\<lambda>x. \<not> P x) xs @ q # tl (dropWhile (\<lambda>x. \<not> P x) xs) \<and> P q"
  by (induction xs) (auto split: if_splits)

lemma validatePoints_result:
  assumes "validatePoints ps acc mx my = Inr (a, mx', my')"
  shows "set acc \<subseteq> set a" and "mx \<le> mx'" and "my \<le> my'"
    and "\<And>p. p \<in> set ps \<Longrightarrow> \<exists>x y. parsePoint p = Inr (x, y) \<and> (x, y) \<in> set a \<and> x \<le> mx' \<and> y \<le> my'"
  using assms
proof (induction ps arbitrary: acc mx my)
  case Nil
  { case 1 then show ?case by simp }
  { case 2 then show ?case by simp }
  { case 3 then show ?case by simp }
  { case 4 then show ?case by simp }
next
  case (Cons q qs)
  { case 1 with Cons.IH(1) show ?case by (fastforce split: sum.splits) }
  { case 2 with Cons.IH(2) show ?case by (fastforce split: sum.splits) }
  { case 3 with Cons.IH(3) show ?case by (fastforce split: sum.splits) }
  { case (4 p)
    from 4(2) obtain x y where q: "parsePoint q = Inr (x, y)"
      and rest: "validatePoints qs (acc @ [(x, y)]) (max mx x) (max my y) = Inr (a, mx', my')"
      by (auto split: sum.splits)
    show ?case
    proof (cases "p = q")
      case True
      then show ?thesis
        using q Cons.IH(1)[OF rest] Cons.IH(2)[OF rest] Cons.IH(3)[OF rest] by auto
    next
      case False
      with 4(1) have "p \<in> set qs" by simp
      from Cons.IH(4)[OF this rest] show ?thesis .
    qed }
qed

subsection \<open>Building the grid\<close>

lemma inGrid_rect: "rect g mx my \<Longrightarrow> inGrid g x y \<longleftrightarrow> 0 \<le> x \<and> x \<le> mx \<and> 0 \<le> y \<and> y \<le> my"
  by (auto simp: rect_def inGrid_def split: if_splits)

lemma rect_gridSet: "gridSet g x y v = Inr g' \<Longrightarrow> rect g' mx my = rect g mx my"
  by (auto simp: gridSet_Inr rect_def inGrid_def set_conv_nth nth_list_update split: if_splits)

lemma fillRows_eq:
  "0 \<le> i \<Longrightarrow> i \<le> x + 1 \<Longrightarrow> length g = nat (x + 1) \<Longrightarrow> - 1 \<le> y \<Longrightarrow>
   fillRows g i x y = Inr (take (nat i) g @ replicate (nat (x + 1 - i)) (replicate (nat (y + 1)) 0))"
proof (induction g i x y rule: fillRows.induct)
  case (1 g i x y)
  show ?case
  proof (cases "i \<le> x")
    case True
    let ?row = "replicate (nat (y + 1)) (0::nat)"
    have row: "newArray (y + 1) (0::nat) = Inr ?row" using 1(5) by (simp add: newArray_def)
    have lt: "nat i < length g" using True 1(2,4) by simp
    have "fillRows (g[nat i := ?row]) (i + 1) x y
        = Inr (take (nat (i + 1)) (g[nat i := ?row]) @ replicate (nat (x + 1 - (i + 1))) ?row)"
      using True 1(2,4,5) by (intro 1(1)[OF True row]) auto
    moreover have "nat (i + 1) = Suc (nat i)" using 1(2) by simp
    moreover have "nat (x + 1 - i) = Suc (nat (x + 1 - (i + 1)))" using True by simp
    ultimately show ?thesis
      using True row lt by (subst fillRows.simps) (simp add: take_Suc_conv_app_nth)
  next
    case False
    with 1(3) have "i = x + 1" by simp
    then show ?thesis using 1(4) by (subst fillRows.simps) simp
  qed
qed

lemma createEmptyGrid_eq:
  "- 1 \<le> x \<Longrightarrow> - 1 \<le> y \<Longrightarrow>
   createEmptyGrid x y = Inr (replicate (nat (x + 1)) (replicate (nat (y + 1)) 0))"
  by (simp add: createEmptyGrid_def newArray_def fillRows_eq)

lemma rect_empty: "- 1 \<le> x \<Longrightarrow> - 1 \<le> y \<Longrightarrow> rect (replicate (nat (x + 1)) (replicate (nat (y + 1)) 0)) x y"
  by (simp add: rect_def)

lemma occ_empty: "occ (replicate n (replicate m 0)) = {}"
  by (auto simp: occ_def cellOcc_def inGrid_def)

lemma occ_gridSet_one: "gridSet g x y 1 = Inr g' \<Longrightarrow> occ g' = insert (x, y) (occ g)"
  using cellOcc_gridSet[of g x y 1 g'] by (auto simp: occ_def)

lemma populate_result:
  assumes "rect g mx my" and "\<forall>p\<in>set pts. 0 \<le> fst p \<and> fst p \<le> mx \<and> 0 \<le> snd p \<and> snd p \<le> my"
  shows "\<exists>g'. populate pts g = Inr g' \<and> rect g' mx my \<and> occ g' = occ g \<union> set pts"
  using assms
proof (induction pts arbitrary: g)
  case Nil
  then show ?case by simp
next
  case (Cons p pts)
  then have "inGrid g (fst p) (snd p)" by (simp add: inGrid_rect)
  then obtain g1 where g1: "gridSet g (fst p) (snd p) 1 = Inr g1" by (simp add: gridSet_def)
  have "rect g1 mx my" using rect_gridSet[OF g1] Cons.prems(1) by simp
  from Cons.IH[OF this] Cons.prems(2) obtain g' where
    "populate pts g1 = Inr g'" "rect g' mx my" "occ g' = occ g1 \<union> set pts" by auto
  then show ?case using g1 occ_gridSet_one[OF g1] by auto
qed

lemma populate_keeps_one:
  "populate pts g = Inr g' \<Longrightarrow> inGrid g x y \<Longrightarrow> g ! nat x ! nat y = 1 \<Longrightarrow>
   inGrid g' x y \<and> g' ! nat x ! nat y = 1"
proof (induction pts arbitrary: g)
  case Nil
  then show ?case by simp
next
  case (Cons p pts)
  from Cons.prems(1) obtain g1 where g1: "gridSet g (fst p) (snd p) 1 = Inr g1"
    and rest: "populate pts g1 = Inr g'" by (auto split: sum.splits)
  have "inGrid g1 x y" using inGrid_gridSet[OF g1] Cons.prems(2) by simp
  moreover have "g1 ! nat x ! nat y = 1"
    using g1 Cons.prems(2,3) by (auto simp: gridSet_Inr inGrid_def nth_list_update)
  ultimately show ?case using Cons.IH[OF rest] by simp
qed

lemma populate_sets_one:
  "populate pts g = Inr g' \<Longrightarrow> p \<in> set pts \<Longrightarrow>
   inGrid g' (fst p) (snd p) \<and> g' ! nat (fst p) ! nat (snd p) = 1"
proof (induction pts arbitrary: g)
  case Nil
  then show ?case by simp
next
  case (Cons q pts)
  from Cons.prems(1) obtain g1 where g1: "gridSet g (fst q) (snd q) 1 = Inr g1"
    and rest: "populate pts g1 = Inr g'" by (auto split: sum.splits)
  show ?case
  proof (cases "p \<in> set pts")
    case True
    from Cons.IH[OF rest this] show ?thesis .
  next
    case False
    with Cons.prems(2) have pq: "p = q" by simp
    have "inGrid g1 (fst q) (snd q)" "g1 ! nat (fst q) ! nat (snd q) = 1"
      using g1 by (auto simp: gridSet_Inr inGrid_def)
    from populate_keeps_one[OF rest this] show ?thesis by (simp add: pq)
  qed
qed

lemma populate_append:
  "populate (ps @ qs) g = (case populate ps g of Inl e \<Rightarrow> Inl e | Inr g' \<Rightarrow> populate qs g')"
  by (induction ps arbitrary: g) (auto split: sum.splits)

lemma populate_duplicate:
  assumes "p \<in> set pts"
  shows "populate (pts @ [p]) g = populate pts g"
proof (cases "populate pts g")
  case (Inl e)
  then show ?thesis by (simp add: populate_append)
next
  case (Inr g')
  from populate_sets_one[OF Inr assms]
  have "inGrid g' (fst p) (snd p)" and one: "g' ! nat (fst p) ! nat (snd p) = 1" by simp_all
  moreover have "g'[nat (fst p) := (g' ! nat (fst p))[nat (snd p) := 1]] = g'"
    using one list_update_id[of "g' ! nat (fst p)" "nat (snd p)"] by simp
  ultimately have "gridSet g' (fst p) (snd p) 1 = Inr g'"
    by (simp add: gridSet_def)
  then show ?thesis using Inr by (simp add: populate_append)
qed

lemma parsePoints_duplicate:
  assumes "p \<in> set ps"
  shows "parsePoints (JArray (ps @ [p])) = parsePoints (JArray ps)"
proof (cases "validatePoints ps [] (- 1) (- 1)")
  case (Inl e)
  then show ?thesis by (simp add: parsePoints_def validatePoints_append)
next
  case (Inr r)
  obtain a mx my where r: "r = (a, mx, my)" by (cases r) auto
  from validatePoints_result(4)[OF Inr[unfolded r] assms] obtain x y
    where p: "parsePoint p = Inr (x, y)" "(x, y) \<in> set a" "x \<le> mx" "y \<le> my" by auto
  then have "validatePoints (ps @ [p]) [] (- 1) (- 1) = Inr (a @ [(x, y)], mx, my)"
    using Inr r by (simp add: validatePoints_append max_absorb1)
  then show ?thesis
    using Inr r populate_duplicate[OF p(2)]
    by (cases "createEmptyGrid mx my") (simp_all add: parsePoints_def)
qed

subsection \<open>Claims about validation and grid construction\<close>

text \<open>
  Claim C4, as amended. The claim takes the pattern to start with optional white space;
  the regular expression of the source is anchored at the first digit. For every string
  element, the shape check raises the TypeError with the message
  \<^verbatim>\<open>Point coordinates must be an array of strings in the form "x,y"\<close> if and only if the
  element does not have the form: digits, optional white space, a comma, optional white
  space, digits (nothing before the first digit, nothing after the last). An element of
  that form is accepted or raises the RangeError. An element not of that form makes the
  whole call fail with that TypeError whenever every element before it in the list is
  valid.
\<close>

theorem shape_validation:
  "(parsePoint (JString s) = Inl (TypeError TYPE_ERROR_MSG) \<longleftrightarrow> \<not> sourceShape s) \<and>
   (sourceShape s \<longrightarrow>
      \<not> isl (parsePoint (JString s)) \<or> parsePoint (JString s) = Inl (RangeError RANGE_ERROR_MSG)) \<and>
   (\<not> sourceShape s \<and> (\<forall>p\<in>set pre. \<not> isl (parsePoint p)) \<longrightarrow>
      render (JArray (pre @ JString s # post)) = Inl (TypeError TYPE_ERROR_MSG))"
proof (intro conjI impI)
  show "parsePoint (JString s) = Inl (TypeError TYPE_ERROR_MSG) \<longleftrightarrow> \<not> sourceShape s"
    by (rule parsePoint_TypeError_iff)
next
  assume "sourceShape s"
  then show "\<not> isl (parsePoint (JString s)) \<or> parsePoint (JString s) = Inl (RangeError RANGE_ERROR_MSG)"
    by (auto simp: sourceShape_iff parsePoint_def Let_def split: if_splits)
next
  assume a: "\<not> sourceShape s \<and> (\<forall>p\<in>set pre. \<not> isl (parsePoint p))"
  then have "parsePoint (JString s) = Inl (TypeError TYPE_ERROR_MSG)"
    by (simp add: parsePoint_TypeError_iff)
  with a show "render (JArray (pre @ JString s # post)) = Inl (TypeError TYPE_ERROR_MSG)"
    by (simp add: render_first_invalid)
qed

theorem shape_validation_witness:
  "\<not> sourceShape (js ''x'') \<and>
   \<not> isl (parsePoint (JString (js ''1 , 2''))) \<and>
   parsePoint (JString (js ''x'')) = Inl (TypeError TYPE_ERROR_MSG) \<and>
   render (JArray [JString (js ''1 , 2''), JString (js ''x''), JString (js ''100,0'')])
     = Inl (TypeError TYPE_ERROR_MSG)"
proof -
  have h1: "\<not> sourceShape (js ''x'')"
    unfolding sourceShape_iff by code_simp
  have h2: "\<forall>p\<in>set [JString (js ''1 , 2'')]. \<not> isl (parsePoint p)"
    by code_simp
  from shape_validation[of "js ''x''" "[JString (js ''1 , 2'')]" "[JString (js ''100,0'')]"] h1 h2
  show ?thesis by simp
qed

text \<open>
  The claim as stated fails twice. The string \<^verbatim>\<open>" 1,2"\<close> matches the pattern of the claim
  and is rejected with the TypeError. The string \<^verbatim>\<open>"x"\<close> violates the pattern, yet the call
  on \<^verbatim>\<open>["100,0", "x"]\<close> fails with the RangeError of the element before it.
\<close>

lemma specShape_leading_space: "specShape (js '' 1,2'')"
  unfolding specShape_def
  apply (rule exI[of _ "js '' ''"])
  apply (rule exI[of _ "js ''1''"])
  apply (rule exI[of _ "[]"])
  apply (rule exI[of _ "[]"])
  apply (rule exI[of _ "js ''2''"])
  apply (simp add: js_def spaces_def digits_def isSpace_def isDigit_def comma_def)
  done

lemma specShape_has_comma: "specShape s \<Longrightarrow> comma \<in> set s"
  by (auto simp: specShape_def)

theorem spec_pattern_counterexample:
  "specShape (js '' 1,2'') \<and>
   render (JArray [JString (js '' 1,2'')]) = Inl (TypeError TYPE_ERROR_MSG) \<and>
   \<not> specShape (js ''x'') \<and>
   render (JArray [JString (js ''100,0''), JString (js ''x'')]) = Inl (RangeError RANGE_ERROR_MSG)"
proof (intro conjI)
  show "specShape (js '' 1,2'')" by (rule specShape_leading_space)
  show "render (JArray [JString (js '' 1,2'')]) = Inl (TypeError TYPE_ERROR_MSG)" by code_simp
  have "comma \<notin> set (js ''x'')" by code_simp
  then show "\<not> specShape (js ''x'')" using specShape_has_comma by blast
  show "render (JArray [JString (js ''100,0''), JString (js ''x'')]) = Inl (RangeError RANGE_ERROR_MSG)"
    by code_simp
qed

text \<open>
  Claim C5. When the list contains an invalid element, the call fails with the error of
  the first invalid element in list order: \<open>find\<close> returns the first element whose
  validation fails. The elements after it are not processed, since replacing them by any
  other list \<open>post\<close> gives the same error, and no perimeters are returned.
\<close>

theorem fail_fast:
  assumes "find (\<lambda>p. isl (parsePoint p)) ps = Some q"
  shows "render (JArray ps) = Inl (projl (parsePoint q)) \<and>
         (\<forall>post. render (JArray (takeWhile (\<lambda>p. \<not> isl (parsePoint p)) ps @ q # post))
            = Inl (projl (parsePoint q)))"
proof -
  let ?pre = "takeWhile (\<lambda>p. \<not> isl (parsePoint p)) ps"
  from find_split[OF assms]
  have ps: "ps = ?pre @ q # tl (dropWhile (\<lambda>p. \<not> isl (parsePoint p)) ps)"
    and q: "isl (parsePoint q)" by simp_all
  have pre: "\<forall>p\<in>set ?pre. \<not> isl (parsePoint p)" by (auto dest: set_takeWhileD)
  have e: "parsePoint q = Inl (projl (parsePoint q))" using q by simp
  have all: "\<And>post. render (JArray (?pre @ q # post)) = Inl (projl (parsePoint q))"
    by (rule render_first_invalid[OF pre e])
  from all[of "tl (dropWhile (\<lambda>p. \<not> isl (parsePoint p)) ps)"] ps
  have "render (JArray ps) = Inl (projl (parsePoint q))" by simp
  with all show ?thesis by blast
qed

theorem fail_fast_witness:
  "find (\<lambda>p. isl (parsePoint p)) [JString (js ''1,2''), JString (js ''x''), JString (js ''100,0'')]
     = Some (JString (js ''x'')) \<and>
   render (JArray [JString (js ''1,2''), JString (js ''x''), JString (js ''100,0'')])
     = Inl (TypeError TYPE_ERROR_MSG) \<and>
   render (JArray [JString (js ''1,2''), JString (js ''x''), JString (js ''7,7'')])
     = Inl (TypeError TYPE_ERROR_MSG)"
proof -
  have h: "find (\<lambda>p. isl (parsePoint p)) [JString (js ''1,2''), JString (js ''x''), JString (js ''100,0'')]
     = Some (JString (js ''x''))" by code_simp
  have e: "projl (parsePoint (JString (js ''x''))) = TypeError TYPE_ERROR_MSG" by code_simp
  have t: "takeWhile (\<lambda>p. \<not> isl (parsePoint p)) [JString (js ''1,2''), JString (js ''x''), JString (js ''100,0'')]
     = [JString (js ''1,2'')]" by code_simp
  from fail_fast[OF h] show ?thesis
    unfolding e t using h by auto
qed

text \<open>
  Claim C6, as amended. An element that matches the coordinate shape and whose parsed
  \<open>x\<close> or \<open>y\<close> exceeds 99 raises the RangeError with the message
  \<^verbatim>\<open>Point coordinates values must be in the range 0 to 99\<close>, and the call fails with it
  provided every element before it in the list is valid. The error comes out of the
  validation loop, before \<^verbatim>\<open>createEmptyGrid\<close> is called.
\<close>

theorem range_error_at_first_invalid:
  assumes "matchPoint s = Some (c1, c2)"
    and "parseInt10 c1 > MAX_VALUE \<or> parseInt10 c2 > MAX_VALUE"
    and "\<forall>p\<in>set pre. \<not> isl (parsePoint p)"
  shows "parsePoint (JString s) = Inl (RangeError RANGE_ERROR_MSG) \<and>
         validatePoints (pre @ JString s # post) [] (- 1) (- 1) = Inl (RangeError RANGE_ERROR_MSG) \<and>
         render (JArray (pre @ JString s # post)) = Inl (RangeError RANGE_ERROR_MSG)"
proof -
  have e: "parsePoint (JString s) = Inl (RangeError RANGE_ERROR_MSG)"
    using assms(1,2) by (auto simp: parsePoint_def Let_def)
  show ?thesis
    using e validatePoints_first_invalid[OF assms(3) e] render_first_invalid[OF assms(3) e]
    by simp
qed

theorem range_error_at_first_invalid_witness:
  "matchPoint (js ''3 ,100'') = Some (js ''3'', js ''100'') \<and>
   (parseInt10 (js ''3'') > MAX_VALUE \<or> parseInt10 (js ''100'') > MAX_VALUE) \<and>
   \<not> isl (parsePoint (JString (js ''1,2''))) \<and>
   render (JArray [JString (js ''1,2''), JString (js ''3 ,100''), JString (js ''x'')])
     = Inl (RangeError RANGE_ERROR_MSG)"
proof -
  have h1: "matchPoint (js ''3 ,100'') = Some (js ''3'', js ''100'')" by code_simp
  have h2: "parseInt10 (js ''3'') > MAX_VALUE \<or> parseInt10 (js ''100'') > MAX_VALUE" by code_simp
  have h3: "\<forall>p\<in>set [JString (js ''1,2'')]. \<not> isl (parsePoint p)" by code_simp
  from range_error_at_first_invalid[OF h1 h2 h3, of "[JString (js ''x'')]"] h1 h2 h3
  show ?thesis by simp
qed

text \<open>
  Without the proviso the claim fails: \<^verbatim>\<open>"100,0"\<close> matches the shape and is out of range,
  but the call on \<^verbatim>\<open>["x", "100,0"]\<close> fails with the TypeError of the element before it.
\<close>

theorem range_error_counterexample:
  "matchPoint (js ''100,0'') = Some (js ''100'', js ''0'') \<and>
   parseInt10 (js ''100'') > MAX_VALUE \<and>
   render (JArray [JString (js ''x''), JString (js ''100,0'')]) = Inl (TypeError TYPE_ERROR_MSG)"
  by code_simp

text \<open>
  Claim C7. Appending another copy of an element that is already in the list does not
  change the result of \<^verbatim>\<open>render\<close>, be it a list of perimeters or an error.
\<close>

theorem duplicate_idempotent:
  assumes "p \<in> set ps"
  shows "render (JArray (ps @ [p])) = render (JArray ps)"
proof -
  from assms have "ps \<noteq> []" by auto
  then show ?thesis
    using parsePoints_duplicate[OF assms] by (simp add: render_def noPoints_def)
qed

theorem duplicate_idempotent_witness:
  "JString (js ''0,1'') \<in> set [JString (js ''0,1''), JString (js ''0,0'')] \<and>
   render (JArray ([JString (js ''0,1''), JString (js ''0,0'')] @ [JString (js ''0,1'')]))
     = render (JArray [JString (js ''0,1''), JString (js ''0,0'')]) \<and>
   render (JArray [JString (js ''0,1''), JString (js ''0,0'')]) = Inr [6]"
proof -
  have h: "JString (js ''0,1'') \<in> set [JString (js ''0,1''), JString (js ''0,0'')]" by simp
  have v: "render (JArray [JString (js ''0,1''), JString (js ''0,0'')]) = Inr [6]" by code_simp
  from duplicate_idempotent[OF h] h v show ?thesis by simp
qed

section \<open>The tracer\<close>

subsection \<open>One iteration of the loop\<close>

lemma look_guarded:
  "guard = inGrid (tgrid st) nx ny \<Longrightarrow> look guard nx ny st = Inr (visit (nx, ny) st)"
  by (auto simp: look_eq visit_def cellOcc_def)

lemma visit_frame [simp]:
  "tgrid (visit q st) = tgrid st" "seen (visit q st) = seen st" "seenKeys (visit q st) = seenKeys st"
  by (simp_all add: visit_def)

lemma visit_all:
  shows "tgrid (foldl (\<lambda>s q. visit q s) st qs) = tgrid st"
    and "seen (foldl (\<lambda>s q. visit q s) st qs) = seen st"
    and "stack (foldl (\<lambda>s q. visit q s) st qs)
           = rev (filter (\<lambda>q. cellOcc (tgrid st) q \<and> q \<notin> seen st) qs) @ stack st"
    and "openEdges (foldl (\<lambda>s q. visit q s) st qs)
           = openEdges st + int (length (filter (\<lambda>q. \<not> cellOcc (tgrid st) q \<and> q \<notin> seen st) qs))"
proof (induction qs arbitrary: st)
  case Nil
  { case 1 show ?case by simp }
  { case 2 show ?case by simp }
  { case 3 show ?case by simp }
  { case 4 show ?case by simp }
next
  case (Cons q qs)
  { case 1 show ?case by (simp add: Cons.IH(1)) }
  { case 2 show ?case by (simp add: Cons.IH(2)) }
  { case 3 show ?case by (simp add: Cons.IH(3)) (simp add: visit_def) }
  { case 4 show ?case by (simp add: Cons.IH(4)) (simp add: visit_def) }
qed

lemma traceStep_seen:
  assumes "stack st = p # rest" and "p \<in> seen st" and "inGrid (tgrid st) (fst p) (snd p)"
  shows "traceStep mx my st
         = Inr (st\<lparr>stack := rest, tgrid := (tgrid st)[nat (fst p) := (tgrid st ! nat (fst p))[nat (snd p) := 0]]\<rparr>)"
  using assms by (simp add: traceStep_def gridSet_def hasBeenSeen_iff)

lemma traceStep_unseen:
  assumes st: "stack st = p # rest" and unseen: "p \<notin> seen st"
    and g: "gridSet (tgrid st) (fst p) (snd p) 0 = Inr g" and r: "rect (tgrid st) mx my"
  shows "traceStep mx my st
         = Inr ((foldl (\<lambda>s q. visit q s) (st\<lparr>stack := rest, tgrid := g\<rparr>) (nbrs p))
                  \<lparr>seenKeys := insert (joinKey (fst p) (snd p)) (seenKeys st)\<rparr>)"
proof -
  define st0 where "st0 = st\<lparr>stack := rest, tgrid := g\<rparr>"
  have rg: "rect g mx my" using rect_gridSet[OF g] r by simp
  have inp: "inGrid g (fst p) (snd p)" using g inGrid_gridSet[OF g] by (simp add: gridSet_Inr)
  then have b: "0 \<le> fst p" "fst p \<le> mx" "0 \<le> snd p" "snd p \<le> my"
    by (simp_all add: inGrid_rect[OF rg])
  define st1 where "st1 = visit (fst p - 1, snd p) st0"
  define st2 where "st2 = visit (fst p + 1, snd p) st1"
  define st3 where "st3 = visit (fst p, snd p - 1) st2"
  define st4 where "st4 = visit (fst p, snd p + 1) st3"
  have g0: "tgrid st0 = g" by (simp add: st0_def)
  have g1: "tgrid st1 = g" by (simp add: st1_def g0)
  have g2: "tgrid st2 = g" by (simp add: st2_def g1)
  have g3: "tgrid st3 = g" by (simp add: st3_def g2)
  have l1: "look (fst p > 0) (fst p - 1) (snd p) st0 = Inr st1"
    unfolding st1_def using b by (intro look_guarded) (auto simp: g0 inGrid_rect[OF rg])
  have l2: "look (fst p < mx) (fst p + 1) (snd p) st1 = Inr st2"
    unfolding st2_def using b by (intro look_guarded) (auto simp: g1 inGrid_rect[OF rg])
  have l3: "look (snd p > 0) (fst p) (snd p - 1) st2 = Inr st3"
    unfolding st3_def using b by (intro look_guarded) (auto simp: g2 inGrid_rect[OF rg])
  have l4: "look (snd p < my) (fst p) (snd p + 1) st3 = Inr st4"
    unfolding st4_def using b by (intro look_guarded) (auto simp: g3 inGrid_rect[OF rg])
  have "traceStep mx my st
        = Inr (st4\<lparr>seenKeys := insert (joinKey (fst p) (snd p)) (seenKeys st4)\<rparr>)"
    using st unseen g l1 l2 l3 l4
    by (simp add: traceStep_def hasBeenSeen_iff st0_def[symmetric] Let_def)
  moreover have "st4 = foldl (\<lambda>s q. visit q s) st0 (nbrs p)"
    by (simp add: nbrs_def st4_def st3_def st2_def st1_def)
  moreover have "seenKeys st4 = seenKeys st"
    by (simp add: st4_def st3_def st2_def st1_def st0_def)
  ultimately show ?thesis by (simp add: st0_def)
qed

subsection \<open>The loop invariant\<close>

lemma component_subset: "c \<in> G \<Longrightarrow> component G c \<subseteq> G"
proof
  fix q assume c: "c \<in> G" and "q \<in> component G c"
  then have "(c, q) \<in> (adj G)\<^sup>*" by (simp add: component_def)
  then show "q \<in> G" using c by (induction rule: rtrancl_induct) (auto simp: adj_def)
qed

lemma component_refl: "c \<in> component G c"
  by (simp add: component_def)

lemma component_step:
  "p \<in> component G c \<Longrightarrow> p \<in> G \<Longrightarrow> q \<in> G \<Longrightarrow> q \<in> set (nbrs p) \<Longrightarrow> q \<in> component G c"
  unfolding component_def by (auto simp: adj_def intro: rtrancl_into_rtrancl)

lemma nbrs_neq: "q \<in> set (nbrs p) \<Longrightarrow> q \<noteq> p"
  by (cases p) (auto simp: nbrs_def)

lemma traceInv_step:
  assumes inv: "traceInv G c mx my st" and ne: "stack st \<noteq> []"
    and c: "c \<in> G" and fin: "finite G" and w: "within G mx my"
  shows "\<exists>st'. traceStep mx my st = Inr st' \<and> traceInv G c mx my st'"
proof -
  from ne obtain p rest where st: "stack st = p # rest" by (cases "stack st") auto
  from inv have r: "rect (tgrid st) mx my" and o: "occ (tgrid st) = G - seen st"
    and cin: "c \<in> seen st \<union> set (stack st)"
    and sub: "seen st \<union> set (stack st) \<subseteq> component G c"
    and cl: "\<forall>p\<in>seen st. \<forall>q\<in>set (nbrs p). q \<in> G \<longrightarrow> q \<in> seen st \<or> q \<in> set (stack st)"
    and oe: "openEdges st = (\<Sum>p\<in>seen st. openAt G p)"
    by (simp_all add: traceInv_def)
  have subG: "seen st \<union> set (stack st) \<subseteq> G" using sub component_subset[OF c] by blast
  then have pG: "p \<in> G" and pC: "p \<in> component G c" using st sub by auto
  then have "inGrid (tgrid st) (fst p) (snd p)" using w by (simp add: inGrid_rect[OF r] within_def)
  then obtain g where g: "gridSet (tgrid st) (fst p) (snd p) 0 = Inr g" by (simp add: gridSet_def)
  have rg: "rect g mx my" using rect_gridSet[OF g] r by simp
  have og: "occ g = G - seen st - {p}" using occ_gridSet_zero[OF g] o by simp
  show ?thesis
  proof (cases "p \<in> seen st")
    case True
    let ?st' = "st\<lparr>stack := rest, tgrid := g\<rparr>"
    have "traceStep mx my st = Inr ?st'"
      using st True g by (simp add: traceStep_def hasBeenSeen_iff)
    moreover have "traceInv G c mx my ?st'"
      unfolding traceInv_def using rg og True cin sub cl oe st by auto
    ultimately show ?thesis by blast
  next
    case False
    let ?push = "filter (\<lambda>q. cellOcc g q \<and> q \<notin> seen st) (nbrs p)"
    let ?st' = "(foldl (\<lambda>s q. visit q s) (st\<lparr>stack := rest, tgrid := g\<rparr>) (nbrs p))
                  \<lparr>seenKeys := insert (joinKey (fst p) (snd p)) (seenKeys st)\<rparr>"
    have step: "traceStep mx my st = Inr ?st'"
      by (rule traceStep_unseen[OF st False g r])
    have cell: "\<And>q. q \<in> set (nbrs p) \<Longrightarrow> cellOcc g q \<longleftrightarrow> q \<in> G \<and> q \<notin> seen st"
    proof -
      fix q assume "q \<in> set (nbrs p)"
      then have "q \<noteq> p" by (rule nbrs_neq)
      moreover have "cellOcc g q \<longleftrightarrow> q \<in> occ g" by (simp add: occ_def)
      ultimately show "cellOcc g q \<longleftrightarrow> q \<in> G \<and> q \<notin> seen st" unfolding og by blast
    qed
    have stack': "stack ?st' = rev ?push @ rest"
      by (simp add: visit_all)
    have push: "set ?push = {q \<in> set (nbrs p). q \<in> G \<and> q \<notin> seen st}"
      using cell by auto
    have "filter (\<lambda>q. \<not> cellOcc g q \<and> q \<notin> seen st) (nbrs p) = filter (\<lambda>q. q \<notin> G) (nbrs p)"
      by (rule filter_cong) (use cell subG in auto)
    then have oe': "openEdges ?st' = openEdges st + openAt G p"
      by (simp add: visit_all openAt_def)
    have fs: "finite (seen st)" using subG fin by (auto intro: finite_subset)
    have "traceInv G c mx my ?st'"
      unfolding traceInv_def
    proof (intro conjI)
      show "rect (tgrid ?st') mx my" using rg by (simp add: visit_all)
      show "occ (tgrid ?st') = G - seen ?st'" using og by (auto simp: visit_all)
      show "c \<in> seen ?st' \<union> set (stack ?st')" using cin st by (auto simp: stack')
      show "seen ?st' \<union> set (stack ?st') \<subseteq> component G c"
        using sub st pC pG component_step[OF pC pG] unfolding stack' set_append set_rev push
        by auto
      show "\<forall>p'\<in>seen ?st'. \<forall>q\<in>set (nbrs p'). q \<in> G \<longrightarrow> q \<in> seen ?st' \<or> q \<in> set (stack ?st')"
        using cl st unfolding stack' set_append set_rev push by auto
      show "openEdges ?st' = (\<Sum>p\<in>seen ?st'. openAt G p)"
        using oe oe' fs False by simp
    qed
    with step show ?thesis by blast
  qed
qed

lemma traceLoop_total:
  assumes "traceInv G c mx my st" and "c \<in> G" and "finite G" and "within G mx my"
  shows "\<exists>st'. traceLoop mx my st = Inr st' \<and> traceInv G c mx my st' \<and> stack st' = []"
  using assms
proof (induction mx my st rule: traceLoop.induct)
  case (1 mx my st)
  show ?case
  proof (cases "stack st = []")
    case True
    then show ?thesis using 1(2) by (subst traceLoop.simps) simp
  next
    case False
    from traceInv_step[OF 1(2) False 1(3,4,5)] obtain st1
      where s: "traceStep mx my st = Inr st1" and i: "traceInv G c mx my st1" by blast
    from 1(1)[OF False s i 1(3,4,5)] show ?thesis
      using False s by (subst traceLoop.simps) simp
  qed
qed

lemma within_occ: "rect g mx my \<Longrightarrow> within (occ g) mx my"
  by (auto simp: within_def occ_def cellOcc_def inGrid_rect)

lemma closed_component:
  assumes c: "c \<in> S" and cl: "\<forall>p\<in>S. \<forall>q\<in>set (nbrs p). q \<in> G \<longrightarrow> q \<in> S"
  shows "component G c \<subseteq> S"
proof
  fix q assume "q \<in> component G c"
  then have "(c, q) \<in> (adj G)\<^sup>*" by (simp add: component_def)
  then show "q \<in> S" using c cl by (induction rule: rtrancl_induct) (auto simp: adj_def)
qed

lemma traceParcel_correct:
  assumes r: "rect g mx my" and c: "(x, y) \<in> occ g"
  shows "\<exists>g'. traceParcel g x y mx my = Inr (perimeter (component (occ g) (x, y)), g') \<and>
           rect g' mx my \<and> occ g' = occ g - component (occ g) (x, y)"
proof -
  let ?G = "occ g" and ?c = "(x, y)"
  let ?st0 = "\<lparr>tgrid = g, seenKeys = {}, stack = [(x, y)], openEdges = 0\<rparr>"
  have "traceInv ?G ?c mx my ?st0"
    using r by (simp add: traceInv_def component_refl)
  from traceLoop_total[OF this c finite_occ within_occ[OF r]] obtain st'
    where l: "traceLoop mx my ?st0 = Inr st'" and inv: "traceInv ?G ?c mx my st'"
      and e: "stack st' = []" by blast
  from inv e have r': "rect (tgrid st') mx my" and o: "occ (tgrid st') = ?G - seen st'"
    and cin: "?c \<in> seen st'" and sub: "seen st' \<subseteq> component ?G ?c"
    and cl: "\<forall>p\<in>seen st'. \<forall>q\<in>set (nbrs p). q \<in> ?G \<longrightarrow> q \<in> seen st'"
    and oe: "openEdges st' = (\<Sum>p\<in>seen st'. openAt ?G p)"
    by (simp_all add: traceInv_def)
  have s: "seen st' = component ?G ?c"
    using sub closed_component[OF cin cl] by blast
  have "\<And>p. p \<in> component ?G ?c \<Longrightarrow> openAt ?G p = openAt (component ?G ?c) p"
  proof -
    fix p assume p: "p \<in> component ?G ?c"
    have "filter (\<lambda>q. q \<notin> ?G) (nbrs p) = filter (\<lambda>q. q \<notin> component ?G ?c) (nbrs p)"
      by (rule filter_cong) (use p cl s component_subset[OF c] in auto)
    then show "openAt ?G p = openAt (component ?G ?c) p" by (simp add: openAt_def)
  qed
  then have "openEdges st' = perimeter (component ?G ?c)"
    unfolding oe s perimeter_def by (intro sum.cong) auto
  then show ?thesis using l r' o s by (simp add: traceParcel_def)
qed

subsection \<open>The scan\<close>

lemma sweep_append:
  "sweep G (as @ bs) = (fst (sweep G as) @ fst (sweep (snd (sweep G as)) bs), snd (sweep (snd (sweep G as)) bs))"
  by (induction as arbitrary: G) (auto simp: Let_def)

lemma gridGet_rect:
  "rect g mx my \<Longrightarrow> 0 \<le> x \<Longrightarrow> x \<le> mx \<Longrightarrow> 0 \<le> y \<Longrightarrow> y \<le> my \<Longrightarrow>
   gridGet g x y = Inr (g ! nat x ! nat y) \<and> (g ! nat x ! nat y \<noteq> 0 \<longleftrightarrow> (x, y) \<in> occ g)"
  by (simp add: gridGet_def inGrid_rect occ_def cellOcc_def)

lemma scanY_sweep:
  assumes "rect g mx my" and "0 \<le> x" and "x \<le> mx" and "0 \<le> y"
  shows "\<exists>g'. scanY g x y mx my perimeters
                = Inr (perimeters @ fst (sweep (occ g) (map (Pair x) [y..my])), g') \<and>
              rect g' mx my \<and> occ g' = snd (sweep (occ g) (map (Pair x) [y..my]))"
  using assms
proof (induction g x y mx my perimeters rule: scanY.induct)
  case (1 g x y mx my perimeters)
  show ?case
  proof (cases "y \<le> my")
    case False
    then show ?thesis using 1(3) by (subst scanY.simps) simp
  next
    case True
    note get = gridGet_rect[OF 1(3,4,5,6) True]
    have up: "[y..my] = y # [y + 1..my]" using True by (simp add: upto_rec1)
    show ?thesis
    proof (cases "(x, y) \<in> occ g")
      case occupied: True
      from traceParcel_correct[OF 1(3) occupied] obtain g1 where
        t: "traceParcel g x y mx my = Inr (perimeter (component (occ g) (x, y)), g1)"
        and r1: "rect g1 mx my" and o1: "occ g1 = occ g - component (occ g) (x, y)" by blast
      have nz: "g ! nat x ! nat y \<noteq> 0" using get occupied by simp
      from 1(1)[OF True conjunct1[OF get] nz t refl r1 1(4,5)] 1(6)
      obtain g' where
        "scanY g1 x (y + 1) mx my (perimeters @ [perimeter (component (occ g) (x, y))])
           = Inr ((perimeters @ [perimeter (component (occ g) (x, y))])
                    @ fst (sweep (occ g1) (map (Pair x) [y + 1..my])), g')"
        "rect g' mx my" "occ g' = snd (sweep (occ g1) (map (Pair x) [y + 1..my]))"
        by auto
      then show ?thesis
        using True get nz t occupied o1 by (subst scanY.simps) (simp add: up Let_def)
    next
      case free: False
      have z: "\<not> g ! nat x ! nat y \<noteq> 0" using get free by simp
      from 1(2)[OF True conjunct1[OF get] z 1(3,4,5)] 1(6)
      obtain g' where
        "scanY g x (y + 1) mx my perimeters
           = Inr (perimeters @ fst (sweep (occ g) (map (Pair x) [y + 1..my])), g')"
        "rect g' mx my" "occ g' = snd (sweep (occ g) (map (Pair x) [y + 1..my]))"
        by auto
      then show ?thesis
        using True get z free by (subst scanY.simps) (simp add: up)
    qed
  qed
qed

lemma scanX_sweep:
  assumes "rect g mx my" and "0 \<le> x"
  shows "\<exists>g'. scanX g x mx my perimeters
                = Inr (perimeters @ fst (sweep (occ g) (cells x mx my)), g') \<and>
              rect g' mx my \<and> occ g' = snd (sweep (occ g) (cells x mx my))"
  using assms
proof (induction g x mx my perimeters rule: scanX.induct)
  case (1 g x mx my perimeters)
  show ?case
  proof (cases "x \<le> mx")
    case False
    then show ?thesis using 1(2) by (subst scanX.simps) (simp add: cells_def)
  next
    case True
    from scanY_sweep[OF 1(2,3) True, of 0 perimeters] obtain g1 where
      y: "scanY g x 0 mx my perimeters
            = Inr (perimeters @ fst (sweep (occ g) (map (Pair x) [0..my])), g1)"
      and r1: "rect g1 mx my" and o1: "occ g1 = snd (sweep (occ g) (map (Pair x) [0..my]))"
      by auto
    from 1(1)[OF True y refl r1] 1(3) obtain g' where
      x: "scanX g1 (x + 1) mx my (perimeters @ fst (sweep (occ g) (map (Pair x) [0..my])))
            = Inr ((perimeters @ fst (sweep (occ g) (map (Pair x) [0..my])))
                     @ fst (sweep (occ g1) (cells (x + 1) mx my)), g')"
      and r': "rect g' mx my" and o': "occ g' = snd (sweep (occ g1) (cells (x + 1) mx my))"
      by auto
    have c: "cells x mx my = map (Pair x) [0..my] @ cells (x + 1) mx my"
      using True by (simp add: cells_def upto_rec1)
    show ?thesis
      using True y x r' o' o1 by (subst scanX.simps) (simp add: c sweep_append)
  qed
qed

lemma findParcels_sweep:
  assumes "rect g mx my"
  shows "\<exists>g'. findParcels g mx my = Inr (fst (sweep (occ g) (cells 0 mx my)), g') \<and>
              rect g' mx my \<and> occ g' = snd (sweep (occ g) (cells 0 mx my))"
  using scanX_sweep[OF assms, of 0 "[]"] by (simp add: findParcels_def)

lemma nbrs_sym: "q \<in> set (nbrs p) \<Longrightarrow> p \<in> set (nbrs q)"
  by (cases p; cases q) (auto simp: nbrs_def)

lemma sym_adj: "sym (adj G)"
  by (auto simp: sym_def adj_def nbrs_sym)

lemma component_sym: "q \<in> component G p \<Longrightarrow> p \<in> component G q"
  using sym_rtrancl[OF sym_adj] unfolding component_def by (blast dest: symD)

lemma component_trans: "q \<in> component G p \<Longrightarrow> r \<in> component G q \<Longrightarrow> r \<in> component G p"
  by (auto simp: component_def)

lemma component_eq: "q \<in> component G p \<Longrightarrow> component G q = component G p"
  using component_sym component_trans by blast

lemma component_closedIn:
  assumes "closedIn G H" and "c \<in> H"
  shows "component H c = component G c"
proof
  have "adj H \<subseteq> adj G" using assms(1) by (auto simp: adj_def closedIn_def)
  then have "(adj H)\<^sup>* \<subseteq> (adj G)\<^sup>*" by (rule rtrancl_mono)
  then show "component H c \<subseteq> component G c" by (auto simp: component_def)
next
  show "component G c \<subseteq> component H c"
  proof
    fix q assume "q \<in> component G c"
    then have "(c, q) \<in> (adj G)\<^sup>*" by (simp add: component_def)
    then have "(c, q) \<in> (adj H)\<^sup>* \<and> q \<in> H"
    proof (induction rule: rtrancl_induct)
      case base
      then show ?case using assms(2) by simp
    next
      case (step q r)
      then have "r \<in> component G q" by (auto simp: component_def)
      moreover have "component G q \<subseteq> H" using step.IH assms(1) by (simp add: closedIn_def)
      ultimately have "r \<in> H" by blast
      then have "(q, r) \<in> adj H" using step.hyps(2) step.IH by (auto simp: adj_def)
      then show ?case using step.IH \<open>r \<in> H\<close> by (auto intro: rtrancl_into_rtrancl)
    qed
    then show "q \<in> component H c" by (simp add: component_def)
  qed
qed

lemma closedIn_Diff:
  assumes "closedIn G H" and "c \<in> H"
  shows "closedIn G (H - component G c)"
  unfolding closedIn_def
proof (intro conjI ballI)
  show "H - component G c \<subseteq> G" using assms(1) by (auto simp: closedIn_def)
next
  fix p assume p: "p \<in> H - component G c"
  show "component G p \<subseteq> H - component G c"
  proof
    fix q assume q: "q \<in> component G p"
    have "q \<in> H" using assms(1) p q by (auto simp: closedIn_def)
    moreover have "q \<notin> component G c"
    proof
      assume "q \<in> component G c"
      then have "component G q = component G c" by (rule component_eq)
      moreover have "component G q = component G p" using q by (rule component_eq)
      ultimately have "p \<in> component G c" using component_refl[of p G] by simp
      with p show False by simp
    qed
    ultimately show "q \<in> H - component G c" by simp
  qed
qed

lemma scanBefore_asym: "scanBefore p q \<Longrightarrow> \<not> scanBefore q p"
  by (auto simp: scanBefore_def)

lemma scanBefore_irrefl: "\<not> scanBefore p p"
  by (simp add: scanBefore_def)

lemma sweep_leaders:
  assumes "sorted_wrt scanBefore cs" and "H \<subseteq> set cs" and "closedIn G H"
  shows "sweep H cs = (map (\<lambda>c. perimeter (component G c)) (filter (\<lambda>c. c \<in> H \<and> leader G c) cs), {})"
  using assms
proof (induction cs arbitrary: H)
  case Nil
  then show ?case by simp
next
  case (Cons c cs)
  have sorted: "sorted_wrt scanBefore cs" and first: "\<forall>q\<in>set cs. scanBefore c q"
    using Cons.prems(1) by simp_all
  show ?case
  proof (cases "c \<in> H")
    case False
    then have "H \<subseteq> set cs" using Cons.prems(2) by auto
    from Cons.IH[OF sorted this Cons.prems(3)] False show ?thesis by simp
  next
    case True
    let ?C = "component G c"
    have CH: "component H c = ?C" by (rule component_closedIn[OF Cons.prems(3) True])
    have Csub: "?C \<subseteq> H" using Cons.prems(3) True by (simp add: closedIn_def)
    have cG: "c \<in> G" using Cons.prems(3) True by (auto simp: closedIn_def)
    have lead: "leader G c"
      unfolding leader_def using cG Csub Cons.prems(2) first by auto
    have sub: "H - ?C \<subseteq> set cs" using Cons.prems(2) component_refl[of c G] by auto
    have "filter (\<lambda>q. q \<in> H - ?C \<and> leader G q) cs = filter (\<lambda>q. q \<in> H \<and> leader G q) cs"
    proof (rule filter_cong[OF refl])
      fix q assume q: "q \<in> set cs"
      have "\<not> leader G q" if "q \<in> ?C"
      proof
        assume l: "leader G q"
        have "c \<in> component G q" using that by (rule component_sym)
        with l have "c = q \<or> scanBefore q c" by (auto simp: leader_def)
        moreover have "scanBefore c q" using first q by simp
        ultimately show False using scanBefore_asym scanBefore_irrefl by blast
      qed
      then show "(q \<in> H - ?C \<and> leader G q) = (q \<in> H \<and> leader G q)" by auto
    qed
    with Cons.IH[OF sorted sub closedIn_Diff[OF Cons.prems(3) True]] True lead CH
    show ?thesis by (simp add: Let_def)
  qed
qed

lemma closedIn_refl: "closedIn G G"
  by (auto simp: closedIn_def intro: component_subset[THEN subsetD])

lemma sorted_cells: "sorted_wrt scanBefore (cells x mx my)"
proof (induction "nat (mx + 1 - x)" arbitrary: x)
  case 0
  then show ?case by (simp add: cells_def)
next
  case (Suc n)
  then have le: "x \<le> mx" and n: "n = nat (mx + 1 - (x + 1))" by auto
  have c: "cells x mx my = map (Pair x) [0..my] @ cells (x + 1) mx my"
    using le by (simp add: cells_def upto_rec1)
  have col: "sorted_wrt scanBefore (map (Pair x) [0..my])"
    by (simp add: sorted_wrt_map scanBefore_def)
  have later: "\<forall>q\<in>set (cells (x + 1) mx my). x < fst q"
    by (auto simp: cells_def)
  show ?case
    unfolding c sorted_wrt_append using col Suc.hyps(1)[OF n] later
    by (auto simp: scanBefore_def)
qed

lemma set_cells: "set (cells 0 mx my) = {0..mx} \<times> {0..my}"
  by (auto simp: cells_def)

subsection \<open>From the input to the perimeters\<close>

lemma digitValue_nonneg: "isDigit c \<Longrightarrow> 0 \<le> digitValue c"
  by (simp add: isDigit_def digitValue_def word_le_def)

lemma foldl_digits_nonneg:
  "list_all isDigit ds \<Longrightarrow> 0 \<le> n \<Longrightarrow> 0 \<le> foldl (\<lambda>n c. 10 * n + digitValue c) n ds"
proof (induction ds arbitrary: n)
  case Nil
  then show ?case by simp
next
  case (Cons d ds)
  then have "0 \<le> 10 * n + digitValue d" using digitValue_nonneg[of d] by simp
  with Cons show ?case by simp
qed

lemma parseInt10_nonneg: "digits ds \<Longrightarrow> 0 \<le> parseInt10 ds"
  by (simp add: digits_def parseInt10_def foldl_digits_nonneg)

lemma parsePoint_range:
  assumes "parsePoint p = Inr (x, y)"
  shows "0 \<le> x \<and> x \<le> 99 \<and> 0 \<le> y \<and> y \<le> 99"
proof -
  from assms obtain s c1 c2 where p: "p = JString s" and m: "matchPoint s = Some (c1, c2)"
    and x: "x = parseInt10 c1" "y = parseInt10 c2" and le: "x \<le> 99" "y \<le> 99"
    by (auto simp: parsePoint_def Let_def MAX_VALUE_def split: jsvalue.splits option.splits if_splits)
  from matchPoint_sound[OF m] have "digits c1" "digits c2" by auto
  then show ?thesis using x le parseInt10_nonneg by simp
qed

lemma parsePoint_error: "parsePoint p = Inl e \<Longrightarrow> e \<noteq> IndexFault"
  by (auto simp: parsePoint_def Let_def split: jsvalue.splits option.splits if_splits)

lemma validatePoints_error: "validatePoints ps acc mx my = Inl e \<Longrightarrow> e \<noteq> IndexFault"
  by (induction ps arbitrary: acc mx my) (auto split: sum.splits dest: parsePoint_error)

lemma validatePoints_coords:
  "validatePoints ps acc mx my = Inr (a, mx', my') \<Longrightarrow>
   \<exists>cs. map parsePoint ps = map Inr cs \<and> a = acc @ cs"
proof (induction ps arbitrary: acc mx my)
  case Nil
  then show ?case by simp
next
  case (Cons p ps)
  from Cons.prems obtain x y where p: "parsePoint p = Inr (x, y)"
    and rest: "validatePoints ps (acc @ [(x, y)]) (max mx x) (max my y) = Inr (a, mx', my')"
    by (auto split: sum.splits)
  from Cons.IH[OF rest] obtain cs where "map parsePoint ps = map Inr cs" "a = (acc @ [(x, y)]) @ cs"
    by blast
  then have "map parsePoint (p # ps) = map Inr ((x, y) # cs) \<and> a = acc @ (x, y) # cs"
    using p by simp
  then show ?case by blast
qed

lemma validatePoints_of_coords:
  assumes "map parsePoint ps = map Inr cs"
  shows "\<exists>mx' my'. validatePoints ps acc mx my = Inr (acc @ cs, mx', my') \<and> mx \<le> mx' \<and> my \<le> my' \<and>
           (\<forall>c\<in>set cs. 0 \<le> fst c \<and> fst c \<le> mx' \<and> 0 \<le> snd c \<and> snd c \<le> my')"
  using assms
proof (induction ps arbitrary: cs acc mx my)
  case Nil
  then show ?case by simp
next
  case (Cons p ps)
  from Cons.prems obtain c cs' where cs: "cs = c # cs'" and p: "parsePoint p = Inr c"
    and rest: "map parsePoint ps = map Inr cs'" by (cases cs) auto
  obtain x y where c: "c = (x, y)" by (cases c)
  from Cons.IH[OF rest, of "acc @ [(x, y)]" "max mx x" "max my y"] obtain mx' my' where
    v: "validatePoints ps (acc @ [(x, y)]) (max mx x) (max my y) = Inr ((acc @ [(x, y)]) @ cs', mx', my')"
    and le: "max mx x \<le> mx'" "max my y \<le> my'"
    and b: "\<forall>c\<in>set cs'. 0 \<le> fst c \<and> fst c \<le> mx' \<and> 0 \<le> snd c \<and> snd c \<le> my'"
    by blast
  have "0 \<le> x" "0 \<le> y" using parsePoint_range[OF p[unfolded c]] by simp_all
  then show ?case using v le b p c cs by auto
qed

text \<open>What \<^verbatim>\<open>parsePoints\<close> builds from a list of valid elements.\<close>

lemma parsePoints_valid:
  assumes "map parsePoint ps = map Inr cs"
  shows "\<exists>g mx my. parsePoints (JArray ps) = Inr \<lparr>grid = g, maxX = mx, maxY = my\<rparr> \<and>
           rect g mx my \<and> occ g = set cs"
proof -
  from validatePoints_of_coords[OF assms, of "[]" "- 1" "- 1"] obtain mx my where
    v: "validatePoints ps [] (- 1) (- 1) = Inr (cs, mx, my)" and le: "- 1 \<le> mx" "- 1 \<le> my"
    and b: "\<forall>c\<in>set cs. 0 \<le> fst c \<and> fst c \<le> mx \<and> 0 \<le> snd c \<and> snd c \<le> my"
    by auto
  let ?g0 = "replicate (nat (mx + 1)) (replicate (nat (my + 1)) (0::nat))"
  from populate_result[OF rect_empty[OF le] b] obtain g where
    "populate cs ?g0 = Inr g" "rect g mx my" "occ g = occ ?g0 \<union> set cs" by blast
  then show ?thesis
    using v createEmptyGrid_eq[OF le] by (simp add: parsePoints_def occ_empty)
qed

lemma findParcels_leaders:
  assumes "rect g mx my"
  shows "\<exists>g'. findParcels g mx my
               = Inr (map (\<lambda>c. perimeter (component (occ g) c)) (filter (leader (occ g)) (cells 0 mx my)), g') \<and>
             rect g' mx my \<and> occ g' = {}"
proof -
  have "occ g \<subseteq> set (cells 0 mx my)"
    using within_occ[OF assms] by (auto simp: set_cells within_def)
  moreover have "filter (\<lambda>c. c \<in> occ g \<and> leader (occ g) c) (cells 0 mx my)
      = filter (leader (occ g)) (cells 0 mx my)"
    by (rule filter_cong) (auto simp: leader_def)
  ultimately have "sweep (occ g) (cells 0 mx my)
        = (map (\<lambda>c. perimeter (component (occ g) c)) (filter (leader (occ g)) (cells 0 mx my)), {})"
    using sweep_leaders[OF sorted_cells _ closedIn_refl, of "occ g" 0 mx my] by simp
  with findParcels_sweep[OF assms] show ?thesis by auto
qed

lemma render_leaders:
  assumes "map parsePoint ps = map Inr cs"
  shows "\<exists>ls. render (JArray ps) = Inr (map (\<lambda>c. perimeter (component (set cs) c)) ls) \<and>
           sorted_wrt scanBefore ls \<and> set ls = {c. leader (set cs) c}"
proof (cases "ps = []")
  case True
  with assms have "cs = []" by simp
  then have "{c. leader (set cs) c} = {}" by (simp add: leader_def)
  then have "render (JArray ps) = Inr (map (\<lambda>c. perimeter (component (set cs) c)) []) \<and>
      sorted_wrt scanBefore [] \<and> set [] = {c. leader (set cs) c}"
    using True by (simp add: render_def noPoints_def)
  then show ?thesis by blast
next
  case False
  from parsePoints_valid[OF assms] obtain g mx my where
    p: "parsePoints (JArray ps) = Inr \<lparr>grid = g, maxX = mx, maxY = my\<rparr>"
    and r: "rect g mx my" and o: "occ g = set cs" by blast
  let ?ls = "filter (leader (occ g)) (cells 0 mx my)"
  from findParcels_leaders[OF r] obtain g' where
    f: "findParcels g mx my = Inr (map (\<lambda>c. perimeter (component (occ g) c)) ?ls, g')" by blast
  have "render (JArray ps) = Inr (map (\<lambda>c. perimeter (component (set cs) c)) ?ls)"
    using False p f o by (simp add: render_def noPoints_def)
  moreover have "sorted_wrt scanBefore ?ls"
    by (rule sorted_wrt_filter[OF sorted_cells])
  moreover have "set ?ls = {c. leader (set cs) c}"
    using within_occ[OF r] o by (auto simp: set_cells within_def leader_def)
  ultimately show ?thesis by blast
qed

subsection \<open>Perimeters and leaders\<close>

lemma card_shift:
  assumes fin: "finite S" and gf: "\<And>p. g (f p) = p" and fg: "\<And>p. f (g p) = p"
  shows "card {p \<in> S. f p \<notin> S} = card {p \<in> S. g p \<notin> S}"
proof -
  have img: "f ` {p \<in> S. f p \<in> S} = {q \<in> S. g q \<in> S}"
  proof
    show "f ` {p \<in> S. f p \<in> S} \<subseteq> {q \<in> S. g q \<in> S}" by (auto simp: gf)
    show "{q \<in> S. g q \<in> S} \<subseteq> f ` {p \<in> S. f p \<in> S}"
    proof
      fix q assume "q \<in> {q \<in> S. g q \<in> S}"
      then have "g q \<in> {p \<in> S. f p \<in> S}" by (simp add: fg)
      then have "f (g q) \<in> f ` {p \<in> S. f p \<in> S}" by (rule imageI)
      then show "q \<in> f ` {p \<in> S. f p \<in> S}" by (simp add: fg)
    qed
  qed
  have "inj_on f {p \<in> S. f p \<in> S}" by (rule inj_on_inverseI[of _ g]) (simp add: gf)
  from card_image[OF this] have eq: "card {q \<in> S. g q \<in> S} = card {p \<in> S. f p \<in> S}"
    by (simp add: img)
  have f1: "{p \<in> S. f p \<notin> S} = S - {p \<in> S. f p \<in> S}" by auto
  have g1: "{p \<in> S. g p \<notin> S} = S - {p \<in> S. g p \<in> S}" by auto
  show ?thesis
    unfolding f1 g1 using fin eq by (simp add: card_Diff_subset)
qed

lemma openAt_of_bool:
  "openAt S p = of_bool ((fst p - 1, snd p) \<notin> S) + of_bool ((fst p + 1, snd p) \<notin> S)
              + of_bool ((fst p, snd p - 1) \<notin> S) + of_bool ((fst p, snd p + 1) \<notin> S)"
  by (simp add: openAt_def nbrs_def)

lemma perimeter_card:
  assumes "finite S"
  shows "perimeter S = 2 * int (card {p \<in> S. (fst p - 1, snd p) \<notin> S})
                     + 2 * int (card {p \<in> S. (fst p, snd p - 1) \<notin> S})"
proof -
  have lr: "card {p \<in> S. (fst p + 1, snd p) \<notin> S} = card {p \<in> S. (fst p - 1, snd p) \<notin> S}"
    by (rule card_shift[OF assms, of "\<lambda>p. (fst p - 1, snd p)" "\<lambda>p. (fst p + 1, snd p)"]) simp_all
  have du: "card {p \<in> S. (fst p, snd p + 1) \<notin> S} = card {p \<in> S. (fst p, snd p - 1) \<notin> S}"
    by (rule card_shift[OF assms, of "\<lambda>p. (fst p, snd p - 1)" "\<lambda>p. (fst p, snd p + 1)"]) simp_all
  have inter: "\<And>P. S \<inter> {p. P p} = {p \<in> S. P p}" by auto
  show ?thesis
    unfolding perimeter_def openAt_of_bool
    using assms by (simp add: sum.distrib inter lr du)
qed

lemma perimeter_even: "finite S \<Longrightarrow> even (perimeter S) \<and> 0 \<le> perimeter S"
  by (simp add: perimeter_card)

lemma finite_component: "finite G \<Longrightarrow> c \<in> G \<Longrightarrow> finite (component G c)"
  using component_subset finite_subset by blast

lemma leader_least:
  assumes "finite G" and "p \<in> G"
  shows "\<exists>c. leader G c \<and> p \<in> component G c"
proof -
  have ex: "\<exists>c\<in>S. \<forall>q\<in>S. q = c \<or> scanBefore c q" if "finite S" "S \<noteq> {}" for S :: "(int \<times> int) set"
    using that
  proof (induction rule: finite_ne_induct)
    case (singleton x)
    then show ?case by simp
  next
    case (insert x F)
    then obtain m where m: "m \<in> F" "\<forall>q\<in>F. q = m \<or> scanBefore m q" by blast
    show ?case
    proof (cases "scanBefore x m")
      case True
      then have "\<forall>q\<in>insert x F. q = x \<or> scanBefore x q"
        using m by (auto simp: scanBefore_def)
      then show ?thesis by blast
    next
      case False
      then have "\<forall>q\<in>insert x F. q = m \<or> scanBefore m q"
        using m by (auto simp: scanBefore_def prod_eq_iff)
      then show ?thesis using m(1) by blast
    qed
  qed
  have "finite (component G p)" "component G p \<noteq> {}"
    using finite_component[OF assms] component_refl[of p G] by auto
  from ex[OF this] obtain c where c: "c \<in> component G p"
    and least: "\<forall>q\<in>component G p. q = c \<or> scanBefore c q" by blast
  have eq: "component G c = component G p" using c by (rule component_eq)
  have "c \<in> G" using c component_subset[OF assms(2)] by blast
  then have "leader G c" using least by (simp add: leader_def eq)
  moreover have "p \<in> component G c" using component_refl[of p G] by (simp add: eq)
  ultimately show ?thesis by blast
qed

lemma leader_unique:
  assumes "leader G c" and "leader G c'" and "p \<in> component G c" and "p \<in> component G c'"
  shows "c = c'"
proof -
  have "component G c = component G p" "component G c' = component G p"
    using assms(3,4) component_eq by blast+
  then have "c' \<in> component G c" "c \<in> component G c'"
    using component_refl[of c G] component_refl[of c' G] by simp_all
  then have "c' = c \<or> scanBefore c c'" "c = c' \<or> scanBefore c' c"
    using assms(1,2) by (auto simp: leader_def)
  then show ?thesis using scanBefore_asym by blast
qed

section \<open>Claims about the tracer\<close>

lemma valid_coords:
  assumes "\<forall>p\<in>set ps. \<not> isl (parsePoint p)"
  shows "map parsePoint ps = map Inr (map (\<lambda>p. projr (parsePoint p)) ps)"
  using assms by (induction ps) auto

text \<open>
  Claim C2. For every list of valid coordinate strings, \<^verbatim>\<open>render\<close> returns a list of
  perimeters, and every one of them is even and non-negative.
\<close>

theorem perimeters_even:
  assumes "\<forall>p\<in>set ps. \<not> isl (parsePoint p)"
  shows "\<exists>perimeters. render (JArray ps) = Inr perimeters \<and> (\<forall>n\<in>set perimeters. even n \<and> 0 \<le> n)"
proof -
  let ?cs = "map (\<lambda>p. projr (parsePoint p)) ps"
  from render_leaders[OF valid_coords[OF assms]] obtain ls where
    r: "render (JArray ps) = Inr (map (\<lambda>c. perimeter (component (set ?cs) c)) ls)"
    and ls: "set ls = {c. leader (set ?cs) c}" by blast
  have "even (perimeter (component (set ?cs) c)) \<and> 0 \<le> perimeter (component (set ?cs) c)"
    if "c \<in> set ls" for c
  proof -
    from that ls have "c \<in> set ?cs" by (simp add: leader_def)
    then have "finite (component (set ?cs) c)" by (intro finite_component) simp_all
    then show ?thesis by (rule perimeter_even)
  qed
  with r show ?thesis by auto
qed

theorem perimeters_even_witness:
  "\<not> isl (parsePoint (JString (js ''0,0''))) \<and> \<not> isl (parsePoint (JString (js ''0,1''))) \<and>
   \<not> isl (parsePoint (JString (js ''1,1''))) \<and> \<not> isl (parsePoint (JString (js ''3,3''))) \<and>
   render (JArray [JString (js ''0,0''), JString (js ''0,1''), JString (js ''1,1''), JString (js ''3,3'')])
     = Inr [8, 4] \<and>
   (\<exists>perimeters.
      render (JArray [JString (js ''0,0''), JString (js ''0,1''), JString (js ''1,1''), JString (js ''3,3'')])
        = Inr perimeters \<and> list_all (\<lambda>n. even n \<and> 0 \<le> n) perimeters)"
proof -
  let ?ps = "[JString (js ''0,0''), JString (js ''0,1''), JString (js ''1,1''), JString (js ''3,3'')]"
  have v: "\<not> isl (parsePoint (JString (js ''0,0'')))" "\<not> isl (parsePoint (JString (js ''0,1'')))"
    "\<not> isl (parsePoint (JString (js ''1,1'')))" "\<not> isl (parsePoint (JString (js ''3,3'')))"
    by code_simp+
  then have h: "\<forall>p\<in>set ?ps. \<not> isl (parsePoint p)" by simp
  have r: "render (JArray ?ps) = Inr [8, 4]" by code_simp
  from perimeters_even[OF h] have
    "\<exists>perimeters. render (JArray ?ps) = Inr perimeters \<and> list_all (\<lambda>n. even n \<and> 0 \<le> n) perimeters"
    by (simp add: list_all_iff)
  with v r show ?thesis by blast
qed

text \<open>
  Claim C3. For every valid input with coordinates \<open>cs\<close>, the result lists the perimeters
  of the parcels of a list \<open>ls\<close> of cells that is strictly ascending in scan order (\<open>x\<close>
  first, then \<open>y\<close>), consists exactly of the least cells of the parcels, and holds exactly
  one cell of the parcel of every occupied cell: one perimeter per parcel, in the order
  of the parcels' least cells.
\<close>

theorem one_perimeter_per_parcel:
  assumes "map parsePoint ps = map Inr cs"
  shows "\<exists>ls. render (JArray ps) = Inr (map (\<lambda>c. perimeter (component (set cs) c)) ls) \<and>
           sorted_wrt scanBefore ls \<and>
           set ls = {c \<in> set cs. \<forall>q\<in>component (set cs) c. q = c \<or> scanBefore c q} \<and>
           (\<forall>p\<in>set cs. \<exists>!c. c \<in> set ls \<and> p \<in> component (set cs) c)"
proof -
  from render_leaders[OF assms] obtain ls where
    r: "render (JArray ps) = Inr (map (\<lambda>c. perimeter (component (set cs) c)) ls)"
    and s: "sorted_wrt scanBefore ls" and ls: "set ls = {c. leader (set cs) c}" by blast
  have set: "set ls = {c \<in> set cs. \<forall>q\<in>component (set cs) c. q = c \<or> scanBefore c q}"
    using ls by (auto simp: leader_def)
  have one: "\<exists>!c. c \<in> set ls \<and> p \<in> component (set cs) c" if p: "p \<in> set cs" for p
  proof -
    from leader_least[OF _ p] obtain c where "leader (set cs) c" "p \<in> component (set cs) c"
      by auto
    then show ?thesis using leader_unique[of "set cs" _ _ p] unfolding ls by blast
  qed
  from r s set one show ?thesis by blast
qed

theorem one_perimeter_per_parcel_witness:
  "map parsePoint [JString (js ''0,0''), JString (js ''2,0''), JString (js ''0,2''), JString (js ''0,1'')]
     = map Inr [(0, 0), (2, 0), (0, 2), (0, 1)] \<and>
   render (JArray [JString (js ''0,0''), JString (js ''2,0''), JString (js ''0,2''), JString (js ''0,1'')])
     = Inr [8, 4] \<and>
   (\<exists>ls. Inr [8, 4] = (Inr (map (\<lambda>c. perimeter (component {(0, 0), (2, 0), (0, 2), (0, 1)} c)) ls)
                        :: error + int list) \<and>
      sorted_wrt scanBefore ls)"
proof -
  let ?ps = "[JString (js ''0,0''), JString (js ''2,0''), JString (js ''0,2''), JString (js ''0,1'')]"
  have h: "map parsePoint ?ps = map Inr [(0, 0), (2, 0), (0, 2), (0, 1)]" by code_simp
  have r: "render (JArray ?ps) = Inr [8, 4]" by code_simp
  from one_perimeter_per_parcel[OF h] obtain ls where
    "render (JArray ?ps) = Inr (map (\<lambda>c. perimeter (component (set [(0, 0), (2, 0), (0, 2), (0, 1)]) c)) ls)"
    "sorted_wrt scanBefore ls" by blast
  then have "\<exists>ls. Inr [8, 4] = (Inr (map (\<lambda>c. perimeter (component {(0, 0), (2, 0), (0, 2), (0, 1)} c)) ls)
                        :: error + int list) \<and> sorted_wrt scanBefore ls"
    unfolding r by auto
  with h r show ?thesis by blast
qed

lemma occ_empty_zero:
  assumes "occ g = {}"
  shows "\<forall>row\<in>set g. \<forall>v\<in>set row. v = 0"
proof (intro ballI)
  fix row v assume "row \<in> set g" and "v \<in> set row"
  then obtain i j where i: "i < length g" "row = g ! i" and j: "j < length row" "v = row ! j"
    by (auto simp: in_set_conv_nth)
  have "\<not> cellOcc g (int i, int j)" using assms by (auto simp: occ_def)
  then show "v = 0" using i j by (simp add: cellOcc_def inGrid_def)
qed

text \<open>
  Claim C8. On every grid with consistent bounds \<^verbatim>\<open>findParcels\<close> returns, and the grid it
  leaves behind has every cell set to 0.
\<close>

theorem grid_consumed:
  assumes "rect g mx my"
  shows "\<exists>perimeters g'. findParcels g mx my = Inr (perimeters, g') \<and> rect g' mx my \<and>
           (\<forall>row\<in>set g'. \<forall>v\<in>set row. v = 0)"
proof -
  from findParcels_leaders[OF assms] obtain g' where
    "findParcels g mx my
       = Inr (map (\<lambda>c. perimeter (component (occ g) c)) (filter (leader (occ g)) (cells 0 mx my)), g')"
    "rect g' mx my" "occ g' = {}" by blast
  then show ?thesis using occ_empty_zero by blast
qed

theorem grid_consumed_witness:
  "rect [[1, 1, 0], [0, 0, 1]] 1 2 \<and>
   findParcels [[1, 1, 0], [0, 0, 1]] 1 2 = Inr ([6, 4], [[0, 0, 0], [0, 0, 0]]) \<and>
   (\<exists>perimeters g'. findParcels [[1, 1, 0], [0, 0, 1]] 1 2 = Inr (perimeters, g') \<and>
      list_all (list_all (\<lambda>v. v = 0)) g')"
proof -
  have h: "rect [[1, 1, 0], [0, 0, 1]] 1 2" by (simp add: rect_def)
  have v: "findParcels [[1, 1, 0], [0, 0, 1]] 1 2 = Inr ([6, 4], [[0, 0, 0], [0, 0, 0]])"
    by code_simp
  from grid_consumed[OF h] have
    "\<exists>perimeters g'. findParcels [[1, 1, 0], [0, 0, 1]] 1 2 = Inr (perimeters, g') \<and>
      list_all (list_all (\<lambda>v. v = 0)) g'"
    unfolding list_all_iff by blast
  with h v show ?thesis by blast
qed

lemma parsePoints_Inr:
  assumes "parsePoints points = Inr gd"
  shows "rect (grid gd) (maxX gd) (maxY gd)"
proof -
  from assms obtain ps where ps: "points = JArray ps"
    by (auto simp: parsePoints_def split: jsvalue.splits)
  from assms ps obtain a mx my where v: "validatePoints ps [] (- 1) (- 1) = Inr (a, mx, my)"
    by (auto simp: parsePoints_def split: sum.splits)
  from validatePoints_coords[OF v] obtain cs where "map parsePoint ps = map Inr cs" by blast
  from parsePoints_valid[OF this] assms ps show ?thesis by auto
qed

lemma render_no_fault: "render points \<noteq> Inl IndexFault"
proof (cases "noPoints points")
  case True
  then show ?thesis by (simp add: render_def)
next
  case False
  show ?thesis
  proof (cases points)
    case (JArray ps)
    show ?thesis
    proof (cases "validatePoints ps [] (- 1) (- 1)")
      case (Inl e)
      then show ?thesis
        using False JArray validatePoints_error[OF Inl]
        by (simp add: render_def parsePoints_def)
    next
      case (Inr r)
      obtain a mx my where "r = (a, mx, my)" by (cases r) auto
      from validatePoints_coords[OF Inr[unfolded this]] obtain cs
        where "map parsePoint ps = map Inr cs" by blast
      from render_leaders[OF this] show ?thesis using JArray by auto
    qed
  qed (use False in \<open>auto simp: render_def parsePoints_def noPoints_def\<close>)
qed

text \<open>
  Claim C9. Every array access of the model is checked, so an access outside the grid
  would surface as \<open>IndexFault\<close>. No call of \<^verbatim>\<open>render\<close> yields it; every grid that
  \<^verbatim>\<open>parsePoints\<close> returns has exactly \<open>maxX + 1\<close> rows of \<open>maxY + 1\<close> cells; and on every
  such grid \<^verbatim>\<open>findParcels\<close>, and \<^verbatim>\<open>traceParcel\<close> started at an occupied cell as
  \<^verbatim>\<open>findParcels\<close> starts it, return normally.
\<close>

theorem no_index_fault:
  "render points \<noteq> Inl IndexFault \<and>
   (parsePoints points = Inr gd \<longrightarrow>
      rect (grid gd) (maxX gd) (maxY gd) \<and>
      (\<exists>r. findParcels (grid gd) (maxX gd) (maxY gd) = Inr r)) \<and>
   (rect g mx my \<longrightarrow>
      (\<exists>r. findParcels g mx my = Inr r) \<and>
      ((x, y) \<in> occ g \<longrightarrow> (\<exists>r. traceParcel g x y mx my = Inr r)))"
proof (intro conjI impI)
  show "render points \<noteq> Inl IndexFault" by (rule render_no_fault)
next
  assume "parsePoints points = Inr gd"
  then show "rect (grid gd) (maxX gd) (maxY gd)" by (rule parsePoints_Inr)
next
  assume "parsePoints points = Inr gd"
  then have "rect (grid gd) (maxX gd) (maxY gd)" by (rule parsePoints_Inr)
  from findParcels_leaders[OF this] show "\<exists>r. findParcels (grid gd) (maxX gd) (maxY gd) = Inr r"
    by blast
next
  assume "rect g mx my"
  from findParcels_leaders[OF this] show "\<exists>r. findParcels g mx my = Inr r" by blast
next
  assume "rect g mx my" and "(x, y) \<in> occ g"
  from traceParcel_correct[OF this] show "\<exists>r. traceParcel g x y mx my = Inr r" by blast
qed

theorem no_index_fault_witness:
  "parsePoints (JArray [JString (js ''1,1''), JString (js ''0,0'')])
     = Inr \<lparr>grid = [[1, 0], [0, 1]], maxX = 1, maxY = 1\<rparr> \<and>
   rect [[1, 0], [0, 1]] 1 1 \<and>
   findParcels [[1, 0], [0, 1]] 1 1 = Inr ([4, 4], [[0, 0], [0, 0]]) \<and>
   (1, 1) \<in> occ [[1, 0], [0, 1]] \<and>
   traceParcel [[1, 0], [0, 1]] 1 1 1 1 = Inr (4, [[1, 0], [0, 0]]) \<and>
   render (JArray [JString (js ''1,1''), JString (js ''0,0'')]) \<noteq> Inl IndexFault"
proof -
  let ?pts = "JArray [JString (js ''1,1''), JString (js ''0,0'')]"
  let ?gd = "\<lparr>grid = [[1, 0], [0, 1]], maxX = 1, maxY = 1\<rparr>"
  have p: "parsePoints ?pts = Inr ?gd" by code_simp
  have f: "findParcels [[1, 0], [0, 1]] 1 1 = Inr ([4, 4], [[0, 0], [0, 0]])" by code_simp
  have t: "traceParcel [[1, 0], [0, 1]] 1 1 1 1 = Inr (4, [[1, 0], [0, 0]])" by code_simp
  have o: "(1, 1) \<in> occ [[1, 0], [0, 1]]" by (simp add: occ_def cellOcc_def inGrid_def)
  from no_index_fault[of ?pts ?gd "[[1, 0], [0, 1]]" 1 1 1 1] p
  have "rect [[1, 0], [0, 1]] 1 1" and "render ?pts \<noteq> Inl IndexFault" by simp_all
  with p f t o show ?thesis by blast
qed

subsection \<open>Straight runs\<close>

lemma run_mem:
  "p \<in> run x0 y0 dx dy N \<longleftrightarrow> (\<exists>i<N. p = (x0 + int i * dx, y0 + int i * dy))"
  by (auto simp: run_def)

lemma card_run:
  assumes "(dx, dy) = (1, 0) \<or> (dx, dy) = (0, 1)"
  shows "card (run x0 y0 dx dy N) = N"
proof -
  have "inj_on (\<lambda>i. (x0 + int i * dx, y0 + int i * dy)) {..<N}"
    using assms by (auto simp: inj_on_def)
  then show ?thesis unfolding run_def by (simp add: card_image)
qed

lemma run_connected:
  assumes d: "(dx, dy) = (1, 0) \<or> (dx, dy) = (0, 1)" and "i < N"
  shows "(x0 + int i * dx, y0 + int i * dy) \<in> component (run x0 y0 dx dy N) (x0, y0)"
  using assms(2)
proof (induction i)
  case 0
  then show ?case by (simp add: component_refl)
next
  case (Suc i)
  let ?G = "run x0 y0 dx dy N"
  let ?p = "(x0 + int i * dx, y0 + int i * dy)" and ?q = "(x0 + int (Suc i) * dx, y0 + int (Suc i) * dy)"
  have "?p \<in> component ?G (x0, y0)" using Suc by simp
  moreover have "?p \<in> ?G"
    unfolding run_mem using Suc.prems by (intro exI[of _ i]) simp
  moreover have "?q \<in> ?G"
    unfolding run_mem using Suc.prems by (intro exI[of _ "Suc i"]) simp
  moreover have "?q \<in> set (nbrs ?p)" using d by (auto simp: nbrs_def algebra_simps)
  ultimately show ?case by (rule component_step)
qed

lemma run_component:
  assumes d: "(dx, dy) = (1, 0) \<or> (dx, dy) = (0, 1)" and N: "0 < N"
  shows "component (run x0 y0 dx dy N) (x0, y0) = run x0 y0 dx dy N"
proof
  have "(x0, y0) \<in> run x0 y0 dx dy N" using N by (auto simp: run_mem)
  then show "component (run x0 y0 dx dy N) (x0, y0) \<subseteq> run x0 y0 dx dy N"
    by (rule component_subset)
  show "run x0 y0 dx dy N \<subseteq> component (run x0 y0 dx dy N) (x0, y0)"
    using run_connected[OF d] by (auto simp: run_mem)
qed

lemma run_leader:
  assumes d: "(dx, dy) = (1, 0) \<or> (dx, dy) = (0, 1)" and N: "0 < N"
  shows "{c. leader (run x0 y0 dx dy N) c} = {(x0, y0)}"
proof -
  let ?G = "run x0 y0 dx dy N"
  have first: "q = (x0, y0) \<or> scanBefore (x0, y0) q" if "q \<in> ?G" for q
    using that d by (auto simp: run_mem scanBefore_def)
  have o: "(x0, y0) \<in> ?G" using N by (auto simp: run_mem)
  have "leader ?G (x0, y0)"
    unfolding leader_def run_component[OF d N] using o first by blast
  moreover have "c = (x0, y0)" if "leader ?G c" for c
  proof -
    from that have c: "c \<in> ?G" by (simp add: leader_def)
    then have "c \<in> component ?G (x0, y0)" by (simp add: run_component[OF d N])
    then have "(x0, y0) \<in> component ?G c" by (rule component_sym)
    with that have "(x0, y0) = c \<or> scanBefore c (x0, y0)" by (auto simp: leader_def)
    then show ?thesis using first[OF c] scanBefore_asym by blast
  qed
  ultimately show ?thesis by blast
qed

lemma run_perimeter:
  assumes d: "(dx, dy) = (1, 0) \<or> (dx, dy) = (0, 1)" and N: "0 < N"
  shows "perimeter (run x0 y0 dx dy N) = 2 * int N + 2"
proof -
  let ?G = "run x0 y0 dx dy N"
  have fin: "finite ?G" by (simp add: run_def)
  have o: "(x0, y0) \<in> ?G" using N by (auto simp: run_mem)
  from d show ?thesis
  proof
    assume h: "(dx, dy) = (1, 0)"
    have "{p \<in> ?G. (fst p - 1, snd p) \<notin> ?G} = {(x0, y0)}"
    proof (intro equalityI subsetI)
      fix p assume "p \<in> {p \<in> ?G. (fst p - 1, snd p) \<notin> ?G}"
      then obtain i where i: "i < N" "p = (x0 + int i, y0)" and out: "(x0 + int i - 1, y0) \<notin> ?G"
        using h by (auto simp: run_mem)
      have "i = 0"
      proof (rule ccontr)
        assume "i \<noteq> 0"
        then have "i - 1 < N" "x0 + int i - 1 = x0 + int (i - 1) * dx" "y0 = y0 + int (i - 1) * dy"
          using i h by auto
        then have "(x0 + int i - 1, y0) \<in> ?G" unfolding run_mem by blast
        with out show False by simp
      qed
      then show "p \<in> {(x0, y0)}" using i by simp
    next
      fix p assume "p \<in> {(x0, y0)}"
      then show "p \<in> {p \<in> ?G. (fst p - 1, snd p) \<notin> ?G}" using o h by (auto simp: run_mem)
    qed
    moreover have "{p \<in> ?G. (fst p, snd p - 1) \<notin> ?G} = ?G"
      using h by (auto simp: run_mem)
    ultimately show ?thesis
      using perimeter_card[OF fin] card_run[OF d, of x0 y0 N] by simp
  next
    assume h: "(dx, dy) = (0, 1)"
    have "{p \<in> ?G. (fst p, snd p - 1) \<notin> ?G} = {(x0, y0)}"
    proof (intro equalityI subsetI)
      fix p assume "p \<in> {p \<in> ?G. (fst p, snd p - 1) \<notin> ?G}"
      then obtain i where i: "i < N" "p = (x0, y0 + int i)" and out: "(x0, y0 + int i - 1) \<notin> ?G"
        using h by (auto simp: run_mem)
      have "i = 0"
      proof (rule ccontr)
        assume "i \<noteq> 0"
        then have "i - 1 < N" "x0 = x0 + int (i - 1) * dx" "y0 + int i - 1 = y0 + int (i - 1) * dy"
          using i h by auto
        then have "(x0, y0 + int i - 1) \<in> ?G" unfolding run_mem by blast
        with out show False by simp
      qed
      then show "p \<in> {(x0, y0)}" using i by simp
    next
      fix p assume "p \<in> {(x0, y0)}"
      then show "p \<in> {p \<in> ?G. (fst p, snd p - 1) \<notin> ?G}" using o h by (auto simp: run_mem)
    qed
    moreover have "{p \<in> ?G. (fst p - 1, snd p) \<notin> ?G} = ?G"
      using h by (auto simp: run_mem)
    ultimately show ?thesis
      using perimeter_card[OF fin] card_run[OF d, of x0 y0 N] by simp
  qed
qed

lemma sorted_singleton:
  assumes "sorted_wrt scanBefore ls" and "set ls = {a}"
  shows "ls = [a]"
proof (cases ls)
  case Nil
  with assms(2) show ?thesis by simp
next
  case (Cons x xs)
  with assms(2) have x: "x = a" and xs: "set xs \<subseteq> {a}" by auto
  have "xs = []"
  proof (rule ccontr)
    assume "xs \<noteq> []"
    then obtain y where "y \<in> set xs" by (cases xs) auto
    then have "scanBefore a a" using assms(1) Cons x xs by auto
    then show False by (simp add: scanBefore_irrefl)
  qed
  with Cons x show ?thesis by simp
qed

text \<open>
  Claim C1. When the input is valid and its coordinates are exactly the cells of a
  horizontal or vertical run of \<open>N \<ge> 1\<close> cells (in any order, repeated or not), the result
  is the single perimeter \<open>2N + 2\<close>. A single coordinate is the run with \<open>N = 1\<close>, so its
  result is \<open>[4]\<close> wherever it lies.
\<close>

theorem straight_run:
  assumes "map parsePoint ps = map Inr cs" and "0 < N"
    and "(dx, dy) = (1, 0) \<or> (dx, dy) = (0, 1)"
    and "set cs = run x0 y0 dx dy N"
  shows "render (JArray ps) = Inr [2 * int N + 2]"
proof -
  from render_leaders[OF assms(1)] obtain ls where
    r: "render (JArray ps) = Inr (map (\<lambda>c. perimeter (component (set cs) c)) ls)"
    and s: "sorted_wrt scanBefore ls" and ls: "set ls = {c. leader (set cs) c}" by blast
  have "set ls = {(x0, y0)}" using ls run_leader[OF assms(3,2)] assms(4) by simp
  from sorted_singleton[OF s this] have "ls = [(x0, y0)]" .
  then show ?thesis
    using r run_component[OF assms(3,2)] run_perimeter[OF assms(3,2)] assms(4) by simp
qed

theorem straight_run_witness:
  "map parsePoint [JString (js ''2,5''), JString (js ''2,3''), JString (js ''2,4'')]
     = map Inr [(2, 5), (2, 3), (2, 4)] \<and>
   set [(2, 5), (2, 3), (2, 4)] = run 2 3 0 1 3 \<and>
   render (JArray [JString (js ''2,5''), JString (js ''2,3''), JString (js ''2,4'')]) = Inr [8] \<and>
   map parsePoint [JString (js ''99,99'')] = map Inr [(99, 99)] \<and>
   set [(99, 99)] = run 99 99 1 0 1 \<and>
   render (JArray [JString (js ''99,99'')]) = Inr [4]"
proof -
  have s1: "map parsePoint [JString (js ''99,99'')] = map Inr [(99, 99)]" by code_simp
  have s2: "set [(99, 99)] = run 99 99 1 0 1" by (auto simp: run_def)
  have s3: "(1::int, 0::int) = (1, 0) \<or> (1::int, 0::int) = (0, 1)" by simp
  from straight_run[OF s1 _ s3 s2] have s4: "render (JArray [JString (js ''99,99'')]) = Inr [4]"
    by simp
  let ?ps = "[JString (js ''2,5''), JString (js ''2,3''), JString (js ''2,4'')]"
  have h1: "map parsePoint ?ps = map Inr [(2, 5), (2, 3), (2, 4)]" by code_simp
  have "{..<3::nat} = {0, 1, 2}" by auto
  then have h2: "set [(2, 5), (2, 3), (2, 4)] = run 2 3 0 1 3" by (auto simp: run_def)
  have h3: "(0::int, 1::int) = (1, 0) \<or> (0::int, 1::int) = (0, 1)" by simp
  from straight_run[OF h1 _ h3 h2] have "render (JArray ?ps) = Inr [8]" by simp
  with h1 h2 s1 s2 s4 show ?thesis by blast
qed

section \<open>The TypeScript port against the JavaScript version\<close>

lemma tsScanY_eq:
  "map_sum id (\<lambda>(ps, gd'). (ps, grid gd')) (tsScanY gd x y perimeters)
     = scanY (grid gd) x y (maxX gd) (maxY gd) perimeters"
proof (induction gd x y perimeters rule: tsScanY.induct)
  case (1 gd x y perimeters)
  show ?case
  proof (cases "y \<le> maxY gd")
    case False
    then show ?thesis by (subst tsScanY.simps, subst scanY.simps) simp
  next
    case True
    show ?thesis
    proof (cases "gridGet (grid gd) x y")
      case (Inl e)
      then show ?thesis using True by (subst tsScanY.simps, subst scanY.simps) simp
    next
      case (Inr v)
      show ?thesis
      proof (cases "v \<noteq> 0")
        case z: False
        have ts: "tsScanY gd x y perimeters = tsScanY gd x (y + 1) perimeters"
          using True Inr z by (subst tsScanY.simps) simp
        have js: "scanY (grid gd) x y (maxX gd) (maxY gd) perimeters
            = scanY (grid gd) x (y + 1) (maxX gd) (maxY gd) perimeters"
          using True Inr z by (subst scanY.simps) simp
        show ?thesis unfolding ts js by (rule 1(2)[OF True Inr z])
      next
        case nz: True
        note t = tsTraceParcel_eq[of gd x y, symmetric]
        show ?thesis
        proof (cases "tsTraceParcel gd x y")
          case (Inl e)
          then have "traceParcel (grid gd) x y (maxX gd) (maxY gd) = Inl e" using t by simp
          then show ?thesis
            using True Inr nz Inl by (subst tsScanY.simps, subst scanY.simps) simp
        next
          case r: (Inr r)
          obtain n gd1 where r1: "r = (n, gd1)" by (cases r)
          have tp: "tsTraceParcel gd x y = Inr (n, gd1)" using r r1 by simp
          then have jp: "traceParcel (grid gd) x y (maxX gd) (maxY gd) = Inr (n, grid gd1)"
            using t by simp
          have ts: "tsScanY gd x y perimeters = tsScanY gd1 x (y + 1) (perimeters @ [n])"
            using True Inr nz tp by (subst tsScanY.simps) simp
          have js: "scanY (grid gd) x y (maxX gd) (maxY gd) perimeters
              = scanY (grid gd1) x (y + 1) (maxX gd) (maxY gd) (perimeters @ [n])"
            using True Inr nz jp by (subst scanY.simps) simp
          have m: "maxX gd1 = maxX gd" "maxY gd1 = maxY gd"
            using tsTraceParcel_frame[OF tp] by simp_all
          show ?thesis
            unfolding ts js using 1(1)[OF True Inr nz tp refl] unfolding m .
        qed
      qed
    qed
  qed
qed

lemma tsScanX_eq:
  "map_sum id (\<lambda>(ps, gd'). (ps, grid gd')) (tsScanX gd x perimeters)
     = scanX (grid gd) x (maxX gd) (maxY gd) perimeters"
proof (induction gd x perimeters rule: tsScanX.induct)
  case (1 gd x perimeters)
  show ?case
  proof (cases "x \<le> maxX gd")
    case False
    then show ?thesis by (subst tsScanX.simps, subst scanX.simps) simp
  next
    case True
    note y = tsScanY_eq[of gd x 0 perimeters, symmetric]
    show ?thesis
    proof (cases "tsScanY gd x 0 perimeters")
      case (Inl e)
      then have "scanY (grid gd) x 0 (maxX gd) (maxY gd) perimeters = Inl e" using y by simp
      then show ?thesis
        using True Inl by (subst tsScanX.simps, subst scanX.simps) simp
    next
      case r: (Inr r)
      obtain ps gd1 where r1: "r = (ps, gd1)" by (cases r)
      have ty: "tsScanY gd x 0 perimeters = Inr (ps, gd1)" using r r1 by simp
      then have jy: "scanY (grid gd) x 0 (maxX gd) (maxY gd) perimeters = Inr (ps, grid gd1)"
        using y by simp
      have ts: "tsScanX gd x perimeters = tsScanX gd1 (x + 1) ps"
        using True ty by (subst tsScanX.simps) simp
      have js: "scanX (grid gd) x (maxX gd) (maxY gd) perimeters
          = scanX (grid gd1) (x + 1) (maxX gd) (maxY gd) ps"
        using True jy by (subst scanX.simps) simp
      have m: "maxX gd1 = maxX gd" "maxY gd1 = maxY gd"
        using tsScanY_frame[OF ty] by simp_all
      show ?thesis
        unfolding ts js using 1[OF True ty refl] unfolding m .
    qed
  qed
qed

lemma tsFindParcels_eq:
  "map_sum id (\<lambda>(ps, gd'). (ps, grid gd')) (tsFindParcels gd)
     = findParcels (grid gd) (maxX gd) (maxY gd)"
  by (simp add: tsFindParcels_def findParcels_def tsScanX_eq)

lemma tsParsePoint_eq: "map_sum id pairOf (tsParsePoint s) = parsePoint (JString s)"
  by (auto simp: tsParsePoint_def parsePoint_def pairOf_def Let_def split: option.splits)

lemma tsValidatePoints_eq:
  "map_sum id (\<lambda>(a, mx', my'). (map pairOf a, mx', my')) (tsValidatePoints ps acc mx my)
     = validatePoints (map JString ps) (map pairOf acc) mx my"
proof (induction ps arbitrary: acc mx my)
  case Nil
  show ?case by simp
next
  case (Cons s ps)
  note p = tsParsePoint_eq[of s, symmetric]
  show ?case
  proof (cases "tsParsePoint s")
    case (Inl e)
    then show ?thesis using p by simp
  next
    case (Inr q)
    then have "parsePoint (JString s) = Inr (px q, py q)" using p by (simp add: pairOf_def)
    then show ?thesis using Inr Cons.IH[of "acc @ [q]"] by (simp add: pairOf_def)
  qed
qed

lemma tsPopulate_eq: "tsPopulate a g = populate (map pairOf a) g"
  by (induction a arbitrary: g) (auto simp: pairOf_def split: sum.splits)

lemma tsParsePoints_eq: "tsParsePoints ps = parsePoints (JArray (map JString ps))"
proof -
  note v = tsValidatePoints_eq[of ps "[]" "- 1" "- 1", symmetric]
  show ?thesis
  proof (cases "tsValidatePoints ps [] (- 1) (- 1)")
    case (Inl e)
    then show ?thesis using v by (simp add: tsParsePoints_def parsePoints_def)
  next
    case (Inr r)
    obtain a mx my where r: "r = (a, mx, my)" by (cases r)
    have "validatePoints (map JString ps) [] (- 1) (- 1) = Inr (map pairOf a, mx, my)"
      using v Inr r by simp
    then show ?thesis
      using Inr r
      by (simp add: tsParsePoints_def parsePoints_def tsPopulate_eq cong: sum.case_cong)
  qed
qed

text \<open>
  Claim C10. On every list of strings the TypeScript \<^verbatim>\<open>computeParcelPerimeters\<close> and the
  JavaScript \<^verbatim>\<open>render\<close> return the same value: the same perimeters, or the same error
  (kind and message).
\<close>

theorem ts_js_equivalent:
  "computeParcelPerimeters ps = render (JArray (map JString ps))"
proof (cases "ps = []")
  case True
  then show ?thesis by (simp add: computeParcelPerimeters_def render_def noPoints_def)
next
  case False
  show ?thesis
  proof (cases "tsParsePoints ps")
    case (Inl e)
    then show ?thesis
      using False tsParsePoints_eq[of ps]
      by (simp add: computeParcelPerimeters_def render_def noPoints_def)
  next
    case (Inr gd)
    note f = tsFindParcels_eq[of gd, symmetric]
    have p: "parsePoints (JArray (map JString ps)) = Inr gd"
      using Inr tsParsePoints_eq[of ps] by simp
    show ?thesis
    proof (cases "tsFindParcels gd")
      case (Inl e)
      then have "findParcels (grid gd) (maxX gd) (maxY gd) = Inl e" using f by simp
      then show ?thesis
        using False Inr p Inl by (simp add: computeParcelPerimeters_def render_def noPoints_def)
    next
      case r: (Inr r)
      obtain perimeters gd' where r1: "r = (perimeters, gd')" by (cases r)
      have "findParcels (grid gd) (maxX gd) (maxY gd) = Inr (perimeters, grid gd')"
        using f r r1 by simp
      then show ?thesis
        using False Inr p r r1 by (simp add: computeParcelPerimeters_def render_def noPoints_def)
    qed
  qed
qed

section \<open>The cases of the test suite\<close>

text \<open>The model reproduces the expectations of \<^verbatim>\<open>test/ParcelFinderTest.js\<close>.\<close>

lemma test_no_points: "render JUndefined = Inr [] \<and> render (JArray []) = Inr []"
  by code_simp

lemma test_not_an_array: "render (JString (js ''0,0'')) = Inl (TypeError TYPE_ERROR_MSG)"
  by code_simp

lemma test_not_strings: "render (JArray [JNumber 0, JNumber 0]) = Inl (TypeError TYPE_ERROR_MSG)"
  by code_simp

lemma test_negative: "render (JArray [JString (js ''-1,0'')]) = Inl (TypeError TYPE_ERROR_MSG)"
  by code_simp

lemma test_range: "render (JArray [JString (js ''0,100'')]) = Inl (RangeError RANGE_ERROR_MSG)"
  by code_simp

lemma test_diagonal: "render (JArray [JString (js ''3,3''), JString (js ''5,5'')]) = Inr [4, 4]"
  by code_simp

lemma test_rectangle:
  "render (JArray [JString (js ''0,0''), JString (js ''0,1''), JString (js ''0,2''),
                   JString (js ''1,0''), JString (js ''1,1''), JString (js ''1,2'')]) = Inr [10]"
  by code_simp

lemma test_arch:
  "render (JArray [JString (js ''0,0''), JString (js ''0,1''), JString (js ''1,1''),
                   JString (js ''2,1''), JString (js ''2,0'')]) = Inr [12]"
  by code_simp

lemma test_typescript:
  "computeParcelPerimeters [js ''0,0'', js ''0,1'', js ''0,2'', js ''2,0''] = Inr [8, 4]"
  by code_simp

end
